theory Spec2Isabelle
  imports Main
begin

section \<open>Formatting verbs of \<^verbatim>\<open>fmt.Sprintf\<close> used by the flattener\<close>

text \<open>
  The flattener renders slice lengths and indices with \<^verbatim>\<open>%d\<close> and numeric leaves
  with \<^verbatim>\<open>%f\<close>. Lengths and indices are never negative, so \<^verbatim>\<open>%d\<close> is the plain
  decimal rendering of a natural number.
\<close>

definition digit :: "nat \<Rightarrow> char" where
  "digit d = ''0123456789'' ! d"

fun decimal :: "nat \<Rightarrow> string" where
  "decimal n = (if n < 10 then [digit n] else decimal (n div 10) @ [digit (n mod 10)])"

declare decimal.simps [simp del]

definition Sprintf_d :: "nat \<Rightarrow> string" where
  "Sprintf_d n = decimal n"

text \<open>
  A \<^verbatim>\<open>float64\<close> is either a finite value \<open>\<plusminus> mant * 2 ^ expo\<close> (sign flag, integer
  mantissa, binary exponent) or one of the three special values. \<^verbatim>\<open>%f\<close> prints the
  exact value rounded to six decimals, ties to even, the sign in front when the sign bit
  is set.
\<close>

datatype float64 = Finite bool nat int | PosInf | NegInf | NaN

definition round_half_even :: "nat \<Rightarrow> nat \<Rightarrow> nat" where
  "round_half_even num den =
     (let q = num div den; r = num mod den
      in if den < 2 * r \<or> (2 * r = den \<and> odd q) then q + 1 else q)"

text \<open>\<open>micro m e\<close> is \<open>m * 2 ^ e\<close> in millionths, rounded to the nearest integer.\<close>

definition micro :: "nat \<Rightarrow> int \<Rightarrow> nat" where
  "micro m e = (if 0 \<le> e then m * 2 ^ nat e * 10 ^ 6
                else round_half_even (m * 10 ^ 6) (2 ^ nat (- e)))"

definition pad6 :: "string \<Rightarrow> string" where
  "pad6 s = replicate (6 - length s) (CHR ''0'') @ s"

fun Sprintf_f :: "float64 \<Rightarrow> string" where
  "Sprintf_f (Finite neg m e) =
     (if neg then ''-'' else '''') @ decimal (micro m e div 10 ^ 6) @ ''.'' @
     pad6 (decimal (micro m e mod 10 ^ 6))"
| "Sprintf_f PosInf = ''+Inf''"
| "Sprintf_f NegInf = ''-Inf''"
| "Sprintf_f NaN = ''NaN''"

section \<open>Values seen through \<^verbatim>\<open>reflect\<close>\<close>

text \<open>
  \<open>val\<close> is the value \<^verbatim>\<open>flatten\<close> looks at after its single \<^verbatim>\<open>Elem()\<close> step:
  \<open>VNil\<close> is the invalid value (a nil interface or nil pointer), \<open>VOther k\<close> a value of
  any kind \<open>k\<close> that the switch does not list (int, struct, ...). The entries of a
  \<open>VMap\<close> stand in the order in which \<^verbatim>\<open>MapKeys()\<close> returns the keys. Map keys are
  strings or, as a representative of the non-string kinds, ints.
\<close>

datatype mkey = KStr string | KInt int

datatype val =
    VNil
  | VBool bool
  | VFloat64 float64
  | VString string
  | VSlice "val list"
  | VMap "(mkey \<times> val) list"
  | VOther string

text \<open>\<^verbatim>\<open>k.Kind() == reflect.String\<close> and \<^verbatim>\<open>k.String()\<close>; the latter does not panic on a
  non-string value but returns the placeholder \<^verbatim>\<open><T Value>\<close>.\<close>

fun is_String :: "mkey \<Rightarrow> bool" where
  "is_String (KStr s) = True"
| "is_String (KInt i) = False"

fun key_String :: "mkey \<Rightarrow> string" where
  "key_String (KStr s) = s"
| "key_String (KInt i) = ''<int Value>''"

section \<open>The flattener\<close>

text \<open>
  The record \<^verbatim>\<open>r\<close> that the flattener fills is a map from strings to strings; the
  lines it sends to the logger are collected beside it. A slice expression out of range
  is the one panic the flattener can raise.
\<close>

datatype err = Err string

datatype logline = Error string | KeyNotString string mkey | Fatal err

datatype panic = SliceBoundsOutOfRange

type_synonym strIfce = "string \<rightharpoonup> string"

type_synonym fstate = "strIfce \<times> logline list"

definition assign :: "string \<Rightarrow> string \<Rightarrow> fstate \<Rightarrow> fstate" where
  "assign k x st = ((fst st)(k \<mapsto> x), snd st)"

definition logmsg :: "logline \<Rightarrow> fstate \<Rightarrow> fstate" where
  "logmsg l st = (fst st, snd st @ [l])"

text \<open>\<^verbatim>\<open>p[:len(p)-1]\<close>\<close>

definition drop_last :: "string \<Rightarrow> panic + string" where
  "drop_last p = (if p = [] then Inl SliceBoundsOutOfRange else Inr (butlast p))"

definition flattenBool :: "bool \<Rightarrow> string \<Rightarrow> fstate \<Rightarrow> panic + fstate" where
  "flattenBool b p st =
     (case drop_last p of
        Inl e \<Rightarrow> Inl e
      | Inr k \<Rightarrow> Inr (assign k (if b then ''true'' else ''false'') st))"

definition flattenFloat64 :: "float64 \<Rightarrow> string \<Rightarrow> fstate \<Rightarrow> panic + fstate" where
  "flattenFloat64 f p st =
     (case drop_last p of Inl e \<Rightarrow> Inl e | Inr k \<Rightarrow> Inr (assign k (Sprintf_f f) st))"

definition flattenString :: "string \<Rightarrow> string \<Rightarrow> fstate \<Rightarrow> panic + fstate" where
  "flattenString s p st =
     (case drop_last p of Inl e \<Rightarrow> Inl e | Inr k \<Rightarrow> Inr (assign k s st))"

text \<open>The first statement of \<^verbatim>\<open>flatten\<close>: append \<^verbatim>\<open>_\<close> to a non-empty prefix.\<close>

definition underscore :: "string \<Rightarrow> string" where
  "underscore p = (if p \<noteq> [] then p @ ''_'' else p)"

text \<open>
  \<^verbatim>\<open>flatten\<close>, \<^verbatim>\<open>flattenMap\<close> and \<^verbatim>\<open>flattenSlice\<close> call each other; the \<^verbatim>\<open>for\<close> loop of
  \<^verbatim>\<open>flattenSlice\<close> is \<open>flattenSlice_loop\<close>, which carries the index.
\<close>

function flatten :: "fstate \<Rightarrow> string \<Rightarrow> val \<Rightarrow> panic + fstate"
  and flattenMap :: "(mkey \<times> val) list \<Rightarrow> string \<Rightarrow> fstate \<Rightarrow> panic + fstate"
  and flattenSlice :: "val list \<Rightarrow> string \<Rightarrow> fstate \<Rightarrow> panic + fstate"
  and flattenSlice_loop :: "nat \<Rightarrow> val list \<Rightarrow> string \<Rightarrow> fstate \<Rightarrow> panic + fstate"
where
  "flatten st p VNil = Inr st"
| "flatten st p (VBool b) = flattenBool b (underscore p) st"
| "flatten st p (VFloat64 f) = flattenFloat64 f (underscore p) st"
| "flatten st p (VMap es) = flattenMap es (underscore p) st"
| "flatten st p (VSlice xs) = flattenSlice xs (underscore p) st"
| "flatten st p (VString s) = flattenString s (underscore p) st"
| "flatten st p (VOther k) = Inr (logmsg (Error (''Unknown: '' @ underscore p)) st)"
| "flattenMap [] p st = Inr st"
| "flattenMap ((k, v) # es) p st =
     (case flatten (if is_String k then st else logmsg (KeyNotString p k) st)
                   (p @ key_String k) v of
        Inl e \<Rightarrow> Inl e
      | Inr st' \<Rightarrow> flattenMap es p st')"
| "flattenSlice xs p st =
     flattenSlice_loop 0 xs p (assign (p @ ''#'') (Sprintf_d (length xs)) st)"
| "flattenSlice_loop i [] p st = Inr st"
| "flattenSlice_loop i (x # xs) p st =
     (case flatten st (p @ Sprintf_d i) x of
        Inl e \<Rightarrow> Inl e
      | Inr st' \<Rightarrow> flattenSlice_loop (Suc i) xs p st')"
  by pat_completeness auto
termination
  by (relation "measure (\<lambda>x. case x of
        Inl (Inl (st, p, v)) \<Rightarrow> 2 * size v
      | Inl (Inr (es, p, st)) \<Rightarrow> 2 * size_list (size_prod (\<lambda>_. 0) size) es + 1
      | Inr (Inl (xs, p, st)) \<Rightarrow> 2 * size_list size xs + 1
      | Inr (Inr (i, xs, p, st)) \<Rightarrow> 2 * size_list size xs)") auto

section \<open>Emitting an event: \<^verbatim>\<open>printEvent\<close>\<close>

text \<open>
  \<^verbatim>\<open>printEvent\<close> talks to the JSON encoder, to standard output, to the logger and to the
  Splunk HEC client. What these do is not decided by this program, so they are fields of
  an environment; what the program does to them is recorded, in order, in a trace of
  effects. \<^verbatim>\<open>log.Fatal\<close> writes its line and exits with status 1.
\<close>

record event =
  event_body :: string
  event_host :: string
  event_index :: string
  event_source :: string
  event_sourcetype :: string

datatype effect = Logged logline | Printed string bool | Sent event "err option"

datatype outcome = Returned | Exited nat | Panicked panic

record 'o env =
  flgFlatten :: bool
  splunkHost :: string
  splunkIndex :: string
  splunkSource :: string
  splunkSourceType :: string
  json_Marshal :: "'o \<Rightarrow> err + string"
  json_Unmarshal :: "string \<Rightarrow> err + (string \<times> val) list"
  json_Marshal_r :: "strIfce \<Rightarrow> err + string"
  Printf_fails :: "effect list \<Rightarrow> string \<Rightarrow> bool"
  WriteEvent :: "effect list \<Rightarrow> event \<Rightarrow> err option"

text \<open>\<^verbatim>\<open>reflect.ValueOf(dat)\<close> for \<^verbatim>\<open>dat\<close> of type \<^verbatim>\<open>map[string]interface{}\<close>.\<close>

definition ValueOf :: "(string \<times> val) list \<Rightarrow> val" where
  "ValueOf dat = VMap (map (\<lambda>(k, v). (KStr k, v)) dat)"

text \<open>
  The first half of \<^verbatim>\<open>printEvent\<close>, up to the point where \<^verbatim>\<open>jsn\<close> is final: either the
  function has returned early (\<open>Dropped\<close>, with the lines logged so far), or \<^verbatim>\<open>jsn\<close> is
  ready to be written, or the flattener has panicked.
\<close>

datatype rendered = Dropped "logline list" | Ready string "logline list" | Crashed panic

definition printEvent_render :: "'o env \<Rightarrow> 'o \<Rightarrow> rendered" where
  "printEvent_render env obj =
     (case json_Marshal env obj of
        Inl e \<Rightarrow> Dropped [Error ''Ops! Cannot marshal JSON'']
      | Inr jsn \<Rightarrow>
          if flgFlatten env then
            (case json_Unmarshal env jsn of
               Inl e \<Rightarrow> Dropped [Error ''Ops! Cannot unmarshal JSON'']
             | Inr dat \<Rightarrow>
                 (case flatten (Map.empty, []) ''kubewatch'' (ValueOf dat) of
                    Inl pn \<Rightarrow> Crashed pn
                  | Inr (r, logs) \<Rightarrow>
                      (case json_Marshal_r env r of
                         Inl e \<Rightarrow> Dropped (logs @ [Error ''Ops! Cannot marshal JSON''])
                       | Inr jsn' \<Rightarrow> Ready jsn' logs)))
          else Ready jsn [])"

definition NewEvent :: "'o env \<Rightarrow> string \<Rightarrow> event" where
  "NewEvent env jsn =
     \<lparr>event_body = jsn, event_host = splunkHost env, event_index = splunkIndex env,
      event_source = splunkSource env, event_sourcetype = splunkSourceType env\<rparr>"

text \<open>The second half: print to stdout (the result of \<^verbatim>\<open>Printf\<close> is discarded), then
  send to Splunk HEC and \<^verbatim>\<open>log.Fatal\<close> on error.\<close>

definition printEvent_send :: "'o env \<Rightarrow> string \<Rightarrow> effect list \<Rightarrow> outcome \<times> effect list" where
  "printEvent_send env jsn tr =
     (let line = jsn @ [CHR 0x0A];
          tr1 = tr @ [Printed line (Printf_fails env tr line)];
          ev = NewEvent env jsn
      in case WriteEvent env tr1 ev of
           None \<Rightarrow> (Returned, tr1 @ [Sent ev None])
         | Some e \<Rightarrow> (Exited 1, tr1 @ [Sent ev (Some e), Logged (Fatal e)]))"

definition printEvent :: "'o env \<Rightarrow> 'o \<Rightarrow> effect list \<Rightarrow> outcome \<times> effect list" where
  "printEvent env obj tr =
     (case printEvent_render env obj of
        Dropped logs \<Rightarrow> (Returned, tr @ map Logged logs)
      | Crashed pn \<Rightarrow> (Panicked pn, tr)
      | Ready jsn logs \<Rightarrow> printEvent_send env jsn (tr @ map Logged logs))"

text \<open>
  What has reached the console (the lines whose write did not fail) and what has been
  handed to the collector.
\<close>

fun console :: "effect list \<Rightarrow> string list" where
  "console [] = []"
| "console (Printed s failed # tr) = (if failed then console tr else s # console tr)"
| "console (e # tr) = console tr"

fun remote :: "effect list \<Rightarrow> event list" where
  "remote [] = []"
| "remote (Sent ev res # tr) = ev # remote tr"
| "remote (e # tr) = remote tr"

section \<open>The resource registry and \<^verbatim>\<open>watchResource\<close>\<close>

datatype runtimeObject =
    ConfigMap | Endpoints | Event | LimitRange | PersistentVolumeClaim | PersistentVolume
  | Pod | PodTemplate | ReplicationController | ResourceQuota | Secret | ServiceAccount
  | Service | Deployment | HorizontalPodAutoscaler | Ingress | Job

record verObj =
  apiVersion :: string
  runtimeObject :: "runtimeObject option"

definition resources :: "string list" where
  "resources =
     [''configMaps'', ''endpoints'', ''events'', ''limitranges'',
      ''persistentvolumeclaims'', ''persistentvolumes'', ''pods'', ''podtemplates'',
      ''replicationcontrollers'', ''resourcequotas'', ''secrets'', ''serviceaccounts'',
      ''services'', ''deployments'', ''horizontalpodautoscalers'', ''ingresses'', ''jobs'']"

definition verObj_of :: "string \<Rightarrow> runtimeObject \<Rightarrow> verObj" where
  "verObj_of ver obj = \<lparr>apiVersion = ver, runtimeObject = Some obj\<rparr>"

definition resourceObject_entries :: "(string \<times> verObj) list" where
  "resourceObject_entries =
     [(''configMaps'', verObj_of ''v1'' ConfigMap),
      (''endpoints'', verObj_of ''v1'' Endpoints),
      (''events'', verObj_of ''v1'' Event),
      (''limitranges'', verObj_of ''v1'' LimitRange),
      (''persistentvolumeclaims'', verObj_of ''v1'' PersistentVolumeClaim),
      (''persistentvolumes'', verObj_of ''v1'' PersistentVolume),
      (''pods'', verObj_of ''v1'' Pod),
      (''podtemplates'', verObj_of ''v1'' PodTemplate),
      (''replicationcontrollers'', verObj_of ''v1'' ReplicationController),
      (''resourcequotas'', verObj_of ''v1'' ResourceQuota),
      (''secrets'', verObj_of ''v1'' Secret),
      (''serviceaccounts'', verObj_of ''v1'' ServiceAccount),
      (''services'', verObj_of ''v1'' Service),
      (''deployments'', verObj_of ''v1beta1'' Deployment),
      (''horizontalpodautoscalers'', verObj_of ''v1beta1'' HorizontalPodAutoscaler),
      (''ingresses'', verObj_of ''v1beta1'' Ingress),
      (''jobs'', verObj_of ''v1beta1'' Job)]"

text \<open>Indexing a Go map with a missing key yields the zero value of the element type.\<close>

definition resourceObject :: "string \<Rightarrow> verObj" where
  "resourceObject resource =
     (case map_of resourceObject_entries resource of
        Some vo \<Rightarrow> vo
      | None \<Rightarrow> \<lparr>apiVersion = [], runtimeObject = None\<rparr>)"

text \<open>
  The \<^verbatim>\<open>switch\<close> at the head of \<^verbatim>\<open>watchResource\<close>: \<^verbatim>\<open>client\<close> is declared without a
  value (\<open>None\<close>, the nil interface) and assigned in the two cases only.
\<close>

datatype restClient = CoreRESTClient | ExtensionsRESTClient

definition watchResource_client :: "string \<Rightarrow> restClient option" where
  "watchResource_client resource =
     (if apiVersion (resourceObject resource) = ''v1'' then Some CoreRESTClient
      else if apiVersion (resourceObject resource) = ''v1beta1'' then Some ExtensionsRESTClient
      else None)"

section \<open>Leaves of a document and the keys they are given\<close>

text \<open>
  A path into a document is a list of steps: into the value of a map key, into the element
  at a slice index, or to the length entry that \<^verbatim>\<open>flattenSlice\<close> writes for a slice.
  \<open>leaves v\<close> lists, in traversal order, the path of every entry the flattener emits for
  \<open>v\<close> together with the text emitted; \<open>key_of p \<pi>\<close> is the key under which the entry at
  path \<open>\<pi>\<close> is stored when the document is flattened with root prefix \<open>p\<close>.
\<close>

datatype step = Key mkey | Idx nat | Len

fun seg :: "step \<Rightarrow> string" where
  "seg (Key k) = key_String k"
| "seg (Idx i) = Sprintf_d i"
| "seg Len = ''#''"

definition key_of :: "string \<Rightarrow> step list \<Rightarrow> string" where
  "key_of p \<pi> = p @ concat (map (\<lambda>s. ''_'' @ seg s) \<pi>)"

definition under :: "step \<Rightarrow> (step list \<times> string) list \<Rightarrow> (step list \<times> string) list" where
  "under s ls = map (\<lambda>(\<pi>, x). (s # \<pi>, x)) ls"

function leaves :: "val \<Rightarrow> (step list \<times> string) list"
  and leavesMap :: "(mkey \<times> val) list \<Rightarrow> (step list \<times> string) list"
  and leavesSlice :: "nat \<Rightarrow> val list \<Rightarrow> (step list \<times> string) list"
where
  "leaves VNil = []"
| "leaves (VBool b) = [([], if b then ''true'' else ''false'')]"
| "leaves (VFloat64 f) = [([], Sprintf_f f)]"
| "leaves (VString s) = [([], s)]"
| "leaves (VOther k) = []"
| "leaves (VMap es) = leavesMap es"
| "leaves (VSlice xs) = ([Len], Sprintf_d (length xs)) # leavesSlice 0 xs"
| "leavesMap [] = []"
| "leavesMap ((k, v) # es) = under (Key k) (leaves v) @ leavesMap es"
| "leavesSlice i [] = []"
| "leavesSlice i (x # xs) = under (Idx i) (leaves x) @ leavesSlice (Suc i) xs"
  by pat_completeness auto
termination
  by (relation "measure (\<lambda>x. case x of
        Inl v \<Rightarrow> 2 * size v
      | Inr (Inl es) \<Rightarrow> 2 * size_list (size_prod (\<lambda>_. 0) size) es + 1
      | Inr (Inr (i, xs)) \<Rightarrow> 2 * size_list size xs + 1)") auto

text \<open>
  A document has plain keys when, in every map of it, the keys are pairwise different
  strings (as the keys of a Go map are) that contain no underscore.
\<close>

function plain :: "val \<Rightarrow> bool"
  and plainMap :: "(mkey \<times> val) list \<Rightarrow> bool"
  and plainSlice :: "val list \<Rightarrow> bool"
where
  "plain VNil = True"
| "plain (VBool b) = True"
| "plain (VFloat64 f) = True"
| "plain (VString s) = True"
| "plain (VOther k) = True"
| "plain (VMap es) = (distinct (map fst es) \<and> plainMap es)"
| "plain (VSlice xs) = plainSlice xs"
| "plainMap [] = True"
| "plainMap ((k, v) # es) =
     (is_String k \<and> CHR ''_'' \<notin> set (key_String k) \<and> plain v \<and> plainMap es)"
| "plainSlice [] = True"
| "plainSlice (x # xs) = (plain x \<and> plainSlice xs)"
  by pat_completeness auto
termination
  by (relation "measure (\<lambda>x. case x of
        Inl v \<Rightarrow> 2 * size v
      | Inr (Inl es) \<Rightarrow> 2 * size_list (size_prod (\<lambda>_. 0) size) es + 1
      | Inr (Inr xs) \<Rightarrow> 2 * size_list size xs + 1)") auto

text \<open>Storing a list of entries into a record, one after the other.\<close>

definition store :: "(string \<times> string) list \<Rightarrow> strIfce \<Rightarrow> strIfce" where
  "store kvs r = fold (\<lambda>(k, x) m. m(k \<mapsto> x)) kvs r"

definition keyed :: "string \<Rightarrow> (step list \<times> string) list \<Rightarrow> (string \<times> string) list" where
  "keyed p ls = map (\<lambda>(\<pi>, x). (key_of p \<pi>, x)) ls"

definition emitted :: "string \<Rightarrow> val \<Rightarrow> (string \<times> string) list" where
  "emitted p v = keyed p (leaves v)"

text \<open>The texts of the steps of an entry's path, and their concatenation, each text after an
  underscore.\<close>

definition segs :: "step list \<times> string \<Rightarrow> string list" where
  "segs e = map seg (fst e)"

definition join :: "string list \<Rightarrow> string" where
  "join ss = concat (map (\<lambda>s. ''_'' @ s) ss)"

text \<open>The document \<^verbatim>\<open>{"a": {"b": true}, "a_b": false}\<close>.\<close>

definition doc_a_b :: val where
  "doc_a_b = VMap [(KStr ''a'', VMap [(KStr ''b'', VBool True)]), (KStr ''a_b'', VBool False)]"

text \<open>Scalars are the booleans, numbers and strings; each is emitted as one text.\<close>

fun is_scalar :: "val \<Rightarrow> bool" where
  "is_scalar (VBool b) = True"
| "is_scalar (VFloat64 f) = True"
| "is_scalar (VString s) = True"
| "is_scalar v = False"

fun scalar_text :: "val \<Rightarrow> string" where
  "scalar_text (VBool b) = (if b then ''true'' else ''false'')"
| "scalar_text (VFloat64 f) = Sprintf_f f"
| "scalar_text (VString s) = s"
| "scalar_text v = []"

text \<open>Running the flattener on the elements of a slice, each under its own prefix.\<close>

definition each_element :: "string \<Rightarrow> (nat \<times> val) list \<Rightarrow> panic + fstate \<Rightarrow> panic + fstate" where
  "each_element p ixs start =
     fold (\<lambda>(i, x) acc. case acc of Inl e \<Rightarrow> Inl e | Inr st \<Rightarrow> flatten st (p @ Sprintf_d i) x)
       ixs start"

text \<open>The document \<^verbatim>\<open>{"a": {"b": true, "c": [1,2]}}\<close> as \<^verbatim>\<open>json.Unmarshal\<close> delivers it
  (numbers arrive as \<^verbatim>\<open>float64\<close>), the inner map iterated as \<open>b, c\<close> and as \<open>c, b\<close>.\<close>

definition doc_abc :: val where
  "doc_abc = VMap [(KStr ''a'', VMap [(KStr ''b'', VBool True),
     (KStr ''c'', VSlice [VFloat64 (Finite False 1 0), VFloat64 (Finite False 2 0)])])]"

definition doc_acb :: val where
  "doc_acb = VMap [(KStr ''a'', VMap [
     (KStr ''c'', VSlice [VFloat64 (Finite False 1 0), VFloat64 (Finite False 2 0)]),
     (KStr ''b'', VBool True)])]"

text \<open>
  An event is dropped when \<^verbatim>\<open>printEvent\<close> returns normally having done nothing but log:
  the console and the collector have received what they had received before.
\<close>

definition drops :: "effect list \<Rightarrow> logline list \<Rightarrow> outcome \<times> effect list \<Rightarrow> bool" where
  "drops tr logs res \<longleftrightarrow>
     fst res = Returned \<and> snd res = tr @ map Logged logs \<and>
     console (snd res) = console tr \<and> remote (snd res) = remote tr"

text \<open>An environment whose collaborators answer the same whatever they are given.\<close>

definition env_of ::
  "bool \<Rightarrow> err + string \<Rightarrow> err + (string \<times> val) list \<Rightarrow> err + string \<Rightarrow> bool \<Rightarrow> err option
     \<Rightarrow> unit env" where
  "env_of flat m u mr pf we =
     \<lparr>flgFlatten = flat, splunkHost = ''node-1'', splunkIndex = ''main'',
      splunkSource = ''kubewatch'', splunkSourceType = ''json'',
      json_Marshal = (\<lambda>obj. m), json_Unmarshal = (\<lambda>jsn. u), json_Marshal_r = (\<lambda>r. mr),
      Printf_fails = (\<lambda>tr line. pf), WriteEvent = (\<lambda>tr ev. we)\<rparr>"

section \<open>Runs of the flattener under a chosen order of map keys\<close>

text \<open>
  \<^verbatim>\<open>MapKeys()\<close> returns the keys of a map in an order that Go does not fix. In the relation
  below the entries of a \<open>VMap\<close> are the contents of the map only; the order in which one
  run iterates is given by a schedule: for a map, the keys in the order \<^verbatim>\<open>MapKeys()\<close>
  returned them (each key of the map once), each with the schedule for its value; for a
  slice, the schedules of its elements. \<open>flatten_run st p v s res\<close> says that
  \<^verbatim>\<open>flatten(r, p, v)\<close>, started with record and log \<open>st\<close> and iterating as \<open>s\<close> says, ends
  with \<open>res\<close>; \<^verbatim>\<open>v.MapIndex(k)\<close> is the lookup \<open>map_of es k\<close>.
\<close>

datatype sched = SLeaf | SMap "(mkey \<times> sched) list" | SSlice "sched list"

inductive flatten_run :: "fstate \<Rightarrow> string \<Rightarrow> val \<Rightarrow> sched \<Rightarrow> panic + fstate \<Rightarrow> bool"
  and flattenMap_run ::
    "(mkey \<times> val) list \<Rightarrow> string \<Rightarrow> fstate \<Rightarrow> (mkey \<times> sched) list \<Rightarrow> panic + fstate \<Rightarrow> bool"
  and flattenSlice_run ::
    "nat \<Rightarrow> val list \<Rightarrow> string \<Rightarrow> fstate \<Rightarrow> sched list \<Rightarrow> panic + fstate \<Rightarrow> bool"
where
  run_Nil: "flatten_run st p VNil SLeaf (Inr st)"
| run_Bool: "flatten_run st p (VBool b) SLeaf (flattenBool b (underscore p) st)"
| run_Float64: "flatten_run st p (VFloat64 f) SLeaf (flattenFloat64 f (underscore p) st)"
| run_String: "flatten_run st p (VString x) SLeaf (flattenString x (underscore p) st)"
| run_Other:
    "flatten_run st p (VOther k) SLeaf (Inr (logmsg (Error (''Unknown: '' @ underscore p)) st))"
| run_Map:
    "distinct (map fst ks) \<Longrightarrow> set (map fst ks) = set (map fst es) \<Longrightarrow>
     flattenMap_run es (underscore p) st ks res \<Longrightarrow>
     flatten_run st p (VMap es) (SMap ks) res"
| run_Slice:
    "flattenSlice_run 0 xs (underscore p)
       (assign (underscore p @ ''#'') (Sprintf_d (length xs)) st) ss res \<Longrightarrow>
     flatten_run st p (VSlice xs) (SSlice ss) res"
| map_done: "flattenMap_run es p st [] (Inr st)"
| map_panic:
    "map_of es k = Some v \<Longrightarrow>
     flatten_run (if is_String k then st else logmsg (KeyNotString p k) st)
       (p @ key_String k) v s (Inl e) \<Longrightarrow>
     flattenMap_run es p st ((k, s) # ks) (Inl e)"
| map_next:
    "map_of es k = Some v \<Longrightarrow>
     flatten_run (if is_String k then st else logmsg (KeyNotString p k) st)
       (p @ key_String k) v s (Inr st') \<Longrightarrow>
     flattenMap_run es p st' ks res \<Longrightarrow>
     flattenMap_run es p st ((k, s) # ks) res"
| slice_done: "flattenSlice_run i [] p st [] (Inr st)"
| slice_panic:
    "flatten_run st (p @ Sprintf_d i) x s (Inl e) \<Longrightarrow>
     flattenSlice_run i (x # xs) p st (s # ss) (Inl e)"
| slice_next:
    "flatten_run st (p @ Sprintf_d i) x s (Inr st') \<Longrightarrow>
     flattenSlice_run (Suc i) xs p st' ss res \<Longrightarrow>
     flattenSlice_run i (x # xs) p st (s # ss) res"

text \<open>The schedule that iterates every map in the order in which its entries are listed.\<close>

function sched_of :: "val \<Rightarrow> sched"
  and schedMap :: "(mkey \<times> val) list \<Rightarrow> (mkey \<times> sched) list"
  and schedSlice :: "val list \<Rightarrow> sched list"
where
  "sched_of VNil = SLeaf"
| "sched_of (VBool b) = SLeaf"
| "sched_of (VFloat64 f) = SLeaf"
| "sched_of (VString s) = SLeaf"
| "sched_of (VOther k) = SLeaf"
| "sched_of (VMap es) = SMap (schedMap es)"
| "sched_of (VSlice xs) = SSlice (schedSlice xs)"
| "schedMap [] = []"
| "schedMap ((k, v) # es) = (k, sched_of v) # schedMap es"
| "schedSlice [] = []"
| "schedSlice (x # xs) = sched_of x # schedSlice xs"
  by pat_completeness auto
termination
  by (relation "measure (\<lambda>x. case x of
        Inl v \<Rightarrow> 2 * size v
      | Inr (Inl es) \<Rightarrow> 2 * size_list (size_prod (\<lambda>_. 0) size) es + 1
      | Inr (Inr xs) \<Rightarrow> 2 * size_list size xs + 1)") auto

text \<open>A document is a Go value when the keys of each of its maps are pairwise different.\<close>

function go_value :: "val \<Rightarrow> bool"
  and go_valueMap :: "(mkey \<times> val) list \<Rightarrow> bool"
  and go_valueSlice :: "val list \<Rightarrow> bool"
where
  "go_value VNil = True"
| "go_value (VBool b) = True"
| "go_value (VFloat64 f) = True"
| "go_value (VString s) = True"
| "go_value (VOther k) = True"
| "go_value (VMap es) = (distinct (map fst es) \<and> go_valueMap es)"
| "go_value (VSlice xs) = go_valueSlice xs"
| "go_valueMap [] = True"
| "go_valueMap ((k, v) # es) = (go_value v \<and> go_valueMap es)"
| "go_valueSlice [] = True"
| "go_valueSlice (x # xs) = (go_value x \<and> go_valueSlice xs)"
  by pat_completeness auto
termination
  by (relation "measure (\<lambda>x. case x of
        Inl v \<Rightarrow> 2 * size v
      | Inr (Inl es) \<Rightarrow> 2 * size_list (size_prod (\<lambda>_. 0) size) es + 1
      | Inr (Inr xs) \<Rightarrow> 2 * size_list size xs + 1)") auto

section \<open>Documents with string keys\<close>




section \<open>Evaluating the renderers on concrete inputs\<close>

lemma decimal_digit: "n < 10 \<Longrightarrow> decimal n = [digit n]"
  by (simp add: decimal.simps)

lemma decimal_step: "\<not> n < 10 \<Longrightarrow> decimal n = decimal (n div 10) @ [digit (n mod 10)]"
  by (subst decimal.simps) simp

lemma replicate_numeral: "replicate (numeral k) x = x # replicate (pred_numeral k) x"
  by (simp add: numeral_eq_Suc)

lemmas render_simps = decimal_digit decimal_step replicate_numeral digit_def micro_def pad6_def
  round_half_even_def Sprintf_d_def

lemmas flatten_simps = underscore_def flattenBool_def flattenFloat64_def flattenString_def
  drop_last_def assign_def logmsg_def

section \<open>The worked example of the specification\<close>

text \<open>
  Claim C1, as the code has it. Flattening \<^verbatim>\<open>{"a": {"b": true, "c": [1,2]}}\<close> with root
  prefix \<^verbatim>\<open>root\<close> returns exactly the record
  \<^verbatim>\<open>{"root_a_b": "true", "root_a_c_#": "2", "root_a_c_0": "1.000000", "root_a_c_1": "2.000000"}\<close>
  and logs nothing, whichever of its two orders the inner map is iterated in: the
  underscore that \<^verbatim>\<open>flatten\<close> appends to every prefix also stands before \<^verbatim>\<open>#\<close> and
  before the index, and numbers are printed with \<^verbatim>\<open>%f\<close>.
\<close>

theorem flatten_doc_abc:
  "flatten (Map.empty, []) ''root'' doc_abc =
     Inr ([''root_a_b'' \<mapsto> ''true'', ''root_a_c_#'' \<mapsto> ''2'',
           ''root_a_c_0'' \<mapsto> ''1.000000'', ''root_a_c_1'' \<mapsto> ''2.000000''], [])
   \<and> flatten (Map.empty, []) ''root'' doc_acb = flatten (Map.empty, []) ''root'' doc_abc"
proof
  show "flatten (Map.empty, []) ''root'' doc_abc =
     Inr ([''root_a_b'' \<mapsto> ''true'', ''root_a_c_#'' \<mapsto> ''2'',
           ''root_a_c_0'' \<mapsto> ''1.000000'', ''root_a_c_1'' \<mapsto> ''2.000000''], [])"
    by (simp add: doc_abc_def flatten_simps render_simps)
  have "[''root_a_c_#'' \<mapsto> ''2'', ''root_a_c_0'' \<mapsto> ''1.000000'',
         ''root_a_c_1'' \<mapsto> ''2.000000'', ''root_a_b'' \<mapsto> ''true''] =
        [''root_a_b'' \<mapsto> ''true'', ''root_a_c_#'' \<mapsto> ''2'',
         ''root_a_c_0'' \<mapsto> ''1.000000'', ''root_a_c_1'' \<mapsto> ''2.000000'']"
    by (rule ext) simp
  then show "flatten (Map.empty, []) ''root'' doc_acb = flatten (Map.empty, []) ''root'' doc_abc"
    by (simp add: doc_abc_def doc_acb_def flatten_simps render_simps)
qed

text \<open>
  Claim C1 as the specification words it does not hold: the record returned for the
  document is not \<^verbatim>\<open>{"root_a_b": "true", "root_a_c#": "2", "root_a_c0": "1", "root_a_c1": "2"}\<close>.
\<close>

theorem flatten_doc_abc_not_as_specified:
  "map_sum id fst (flatten (Map.empty, []) ''root'' doc_abc) \<noteq>
     Inr [''root_a_b'' \<mapsto> ''true'', ''root_a_c#'' \<mapsto> ''2'',
          ''root_a_c0'' \<mapsto> ''1'', ''root_a_c1'' \<mapsto> ''2'']"
proof
  assume "map_sum id fst (flatten (Map.empty, []) ''root'' doc_abc) =
     Inr [''root_a_b'' \<mapsto> ''true'', ''root_a_c#'' \<mapsto> ''2'',
          ''root_a_c0'' \<mapsto> ''1'', ''root_a_c1'' \<mapsto> ''2'']"
  then have "[''root_a_b'' \<mapsto> ''true'', ''root_a_c_#'' \<mapsto> ''2'',
              ''root_a_c_0'' \<mapsto> ''1.000000'', ''root_a_c_1'' \<mapsto> ''2.000000''] =
             [''root_a_b'' \<mapsto> ''true'', ''root_a_c#'' \<mapsto> ''2'',
              ''root_a_c0'' \<mapsto> ''1'', ''root_a_c1'' \<mapsto> ''2'']"
    by (simp add: doc_abc_def flatten_simps render_simps)
  then have "[''root_a_b'' \<mapsto> ''true'', ''root_a_c_#'' \<mapsto> ''2'',
              ''root_a_c_0'' \<mapsto> ''1.000000'', ''root_a_c_1'' \<mapsto> ''2.000000'']
               ''root_a_c0'' =
             [''root_a_b'' \<mapsto> ''true'', ''root_a_c#'' \<mapsto> ''2'',
              ''root_a_c0'' \<mapsto> ''1'', ''root_a_c1'' \<mapsto> ''2''] ''root_a_c0''"
    by (rule fun_cong)
  then show False by simp
qed

section \<open>Every accepted resource name selects a REST client\<close>

text \<open>
  Claim C9. The list \<^verbatim>\<open>resources\<close> has 17 names; each of them is a key of
  \<^verbatim>\<open>resourceObject\<close>, its \<^verbatim>\<open>apiVersion\<close> is \<^verbatim>\<open>v1\<close> or \<^verbatim>\<open>v1beta1\<close>, and so the switch of
  \<^verbatim>\<open>watchResource\<close> assigns a client for it.
\<close>

theorem resources_registered:
  "length resources = 17 \<and>
   (\<forall>resource \<in> set resources.
      resource \<in> dom (map_of resourceObject_entries) \<and>
      (apiVersion (resourceObject resource) = ''v1'' \<or>
       apiVersion (resourceObject resource) = ''v1beta1'') \<and>
      watchResource_client resource \<noteq> None)"
  by (simp add: resources_def resourceObject_entries_def resourceObject_def
      watchResource_client_def verObj_of_def)

theorem resources_registered_witness:
  "''ingresses'' \<in> set resources \<and> ''ingresses'' \<in> dom (map_of resourceObject_entries) \<and>
   apiVersion (resourceObject ''ingresses'') = ''v1beta1'' \<and>
   watchResource_client ''ingresses'' = Some ExtensionsRESTClient"
proof -
  have m: "''ingresses'' \<in> set resources"
    by (simp add: resources_def)
  from resources_registered m
  have "''ingresses'' \<in> dom (map_of resourceObject_entries) \<and>
      (apiVersion (resourceObject ''ingresses'') = ''v1'' \<or>
       apiVersion (resourceObject ''ingresses'') = ''v1beta1'') \<and>
      watchResource_client ''ingresses'' \<noteq> None"
    by blast
  moreover have "apiVersion (resourceObject ''ingresses'') \<noteq> ''v1''"
    by (simp add: resourceObject_entries_def resourceObject_def verObj_of_def)
  ultimately show ?thesis using m
    by (auto simp: watchResource_client_def)
qed

section \<open>The flattener returns\<close>

text \<open>
  With a non-empty prefix no slice expression of the flattener is out of range, so
  \<^verbatim>\<open>flatten\<close> and the functions it calls return a record.
\<close>

lemma flatten_returns_aux:
  "p \<noteq> [] \<Longrightarrow> \<exists>st'. flatten st p v = Inr st'"
  "q \<noteq> [] \<Longrightarrow> \<exists>st'. flattenMap es q st1 = Inr st'"
  "q2 \<noteq> [] \<Longrightarrow> \<exists>st'. flattenSlice xs q2 st2 = Inr st'"
  "q3 \<noteq> [] \<Longrightarrow> \<exists>st'. flattenSlice_loop i ys q3 st3 = Inr st'"
proof (induction st p v and es q st1 and xs q2 st2 and i ys q3 st3
    rule: flatten_flattenMap_flattenSlice_flattenSlice_loop.induct)
  case (9 k v es p st)
  then show ?case by (cases "is_String k") (auto split: sum.splits)
next
  case (12 i x xs p st)
  then show ?case by (auto split: sum.splits)
qed (auto simp: flatten_simps)

section \<open>Runs are determined by the order of the map keys\<close>

inductive_cases run_NilE: "flatten_run st p VNil s res"
inductive_cases run_BoolE: "flatten_run st p (VBool b) s res"
inductive_cases run_Float64E: "flatten_run st p (VFloat64 f) s res"
inductive_cases run_StringE: "flatten_run st p (VString x) s res"
inductive_cases run_OtherE: "flatten_run st p (VOther k) s res"
inductive_cases run_MapE: "flatten_run st p (VMap es) s res"
inductive_cases run_SliceE: "flatten_run st p (VSlice xs) s res"
inductive_cases map_NilE: "flattenMap_run es p st [] res"
inductive_cases map_ConsE: "flattenMap_run es p st ((k, s) # ks) res"
inductive_cases slice_NilE: "flattenSlice_run i [] p st ss res"
inductive_cases slice_ConsE: "flattenSlice_run i (x # xs) p st ss res"

lemma run_unique_aux:
  "flatten_run st p v s r1 \<Longrightarrow> (\<And>r2. flatten_run st p v s r2 \<Longrightarrow> r1 = r2)"
  "flattenMap_run es q st1 ks r1' \<Longrightarrow> (\<And>r2. flattenMap_run es q st1 ks r2 \<Longrightarrow> r1' = r2)"
  "flattenSlice_run i xs q2 st2 ss r1'' \<Longrightarrow> (\<And>r2. flattenSlice_run i xs q2 st2 ss r2 \<Longrightarrow> r1'' = r2)"
proof (induction arbitrary: and and rule: flatten_run_flattenMap_run_flattenSlice_run.inducts)
  case (run_Nil st p)
  then show ?case by (auto elim: run_NilE)
next
  case (run_Bool st p b)
  then show ?case by (auto elim: run_BoolE)
next
  case (run_Float64 st p f)
  then show ?case by (auto elim: run_Float64E)
next
  case (run_String st p x)
  then show ?case by (auto elim: run_StringE)
next
  case (run_Other st p k)
  then show ?case by (auto elim: run_OtherE)
next
  case (run_Map ks es p st res)
  from run_Map.prems show ?case
    by (rule run_MapE) (auto dest: run_Map.IH)
next
  case (run_Slice xs p st ss res)
  from run_Slice.prems show ?case
    by (rule run_SliceE) (auto dest: run_Slice.IH)
next
  case (map_done es p st)
  then show ?case by (auto elim: map_NilE)
next
  case (map_panic es k v st p s e ks)
  from map_panic.prems show ?case
  proof (rule map_ConsE)
    fix v' e'
    assume "map_of es k = Some v'" and r2: "r2 = Inl e'"
      and "flatten_run (if is_String k then st else logmsg (KeyNotString p k) st)
             (p @ key_String k) v' s (Inl e')"
    with map_panic.hyps have "flatten_run (if is_String k then st else logmsg (KeyNotString p k) st)
             (p @ key_String k) v s (Inl e')" by simp
    then have "Inl e = (Inl e' :: panic + fstate)" by (rule map_panic.IH)
    with r2 show "Inl e = r2" by simp
  next
    fix v' st'
    assume "map_of es k = Some v'"
      and "flatten_run (if is_String k then st else logmsg (KeyNotString p k) st)
             (p @ key_String k) v' s (Inr st')"
    with map_panic.hyps have "flatten_run (if is_String k then st else logmsg (KeyNotString p k) st)
             (p @ key_String k) v s (Inr st')" by simp
    then have "Inl e = (Inr st' :: panic + fstate)" by (rule map_panic.IH)
    then show "Inl e = r2" by simp
  qed
next
  case (map_next es k v st p s st' ks res)
  from map_next.prems show ?case
  proof (rule map_ConsE)
    fix v' e'
    assume "map_of es k = Some v'"
      and "flatten_run (if is_String k then st else logmsg (KeyNotString p k) st)
             (p @ key_String k) v' s (Inl e')"
    with map_next.hyps have "flatten_run (if is_String k then st else logmsg (KeyNotString p k) st)
             (p @ key_String k) v s (Inl e')" by simp
    then have "Inr st' = (Inl e' :: panic + fstate)" by (rule map_next.IH(1))
    then show "res = r2" by simp
  next
    fix v' st''
    assume "map_of es k = Some v'"
      and a: "flatten_run (if is_String k then st else logmsg (KeyNotString p k) st)
             (p @ key_String k) v' s (Inr st'')"
      and b: "flattenMap_run es p st'' ks r2"
    with map_next.hyps have "flatten_run (if is_String k then st else logmsg (KeyNotString p k) st)
             (p @ key_String k) v s (Inr st'')" by simp
    then have "Inr st' = (Inr st'' :: panic + fstate)" by (rule map_next.IH(1))
    with b have "flattenMap_run es p st' ks r2" by simp
    then show "res = r2" by (rule map_next.IH(2))
  qed
next
  case (slice_done i p st)
  then show ?case by (auto elim: slice_NilE)
next
  case (slice_panic st p i x s e xs ss)
  from slice_panic.prems show ?case
    by (rule slice_ConsE) (auto dest: slice_panic.IH)
next
  case (slice_next st p i x s st' xs ss res)
  from slice_next.prems show ?case
  proof (rule slice_ConsE)
    fix s' e' ss'
    assume "s # ss = s' # ss'" and "flatten_run st (p @ Sprintf_d i) x s' (Inl e')"
    then have "flatten_run st (p @ Sprintf_d i) x s (Inl e')" by simp
    then have "Inr st' = (Inl e' :: panic + fstate)" by (rule slice_next.IH(1))
    then show "res = r2" by simp
  next
    fix s' st'' ss'
    assume "s # ss = s' # ss'" and "flatten_run st (p @ Sprintf_d i) x s' (Inr st'')"
      and b: "flattenSlice_run (Suc i) xs p st'' ss' r2"
    then have "flatten_run st (p @ Sprintf_d i) x s (Inr st'')" and "ss' = ss" by simp_all
    then have "Inr st' = (Inr st'' :: panic + fstate)" and "ss' = ss"
      by (auto dest: slice_next.IH(1))
    with b have "flattenSlice_run (Suc i) xs p st' ss r2" by simp
    then show "res = r2" by (rule slice_next.IH(2))
  qed
qed

text \<open>
  The function \<open>flatten\<close> is the run that iterates every map in the order in which its
  entries are listed.
\<close>

lemma schedMap_keys: "map fst (schedMap es) = map fst es"
  by (induction es) auto

lemma flatten_is_run_aux:
  "go_value v \<longrightarrow> flatten_run st p v (sched_of v) (flatten st p v)"
  "\<forall>es0. go_valueMap es \<and> (\<forall>e \<in> set es. map_of es0 (fst e) = Some (snd e)) \<longrightarrow>
      flattenMap_run es0 q st1 (schedMap es) (flattenMap es q st1)"
  "go_valueSlice xs \<longrightarrow>
      flattenSlice_run 0 xs q2 (assign (q2 @ ''#'') (Sprintf_d (length xs)) st2) (schedSlice xs)
        (flattenSlice xs q2 st2)"
  "go_valueSlice ys \<longrightarrow> flattenSlice_run i ys q3 st3 (schedSlice ys) (flattenSlice_loop i ys q3 st3)"
proof (induction st p v and es q st1 and xs q2 st2 and i ys q3 st3
    rule: flatten_flattenMap_flattenSlice_flattenSlice_loop.induct)
  case (1 st p)
  show ?case by (simp add: run_Nil)
next
  case (2 st p b)
  show ?case by (simp add: run_Bool)
next
  case (3 st p f)
  show ?case by (simp add: run_Float64)
next
  case (4 st p es)
  show ?case
  proof
    assume g: "go_value (VMap es)"
    then have d: "distinct (map fst es)" and gm: "go_valueMap es" by simp_all
    from d have "\<forall>e \<in> set es. map_of es (fst e) = Some (snd e)" by auto
    with 4 gm have "flattenMap_run es (underscore p) st (schedMap es) (flattenMap es (underscore p) st)"
      by blast
    moreover have "distinct (map fst (schedMap es))" "set (map fst (schedMap es)) = set (map fst es)"
      using d by (simp_all only: schedMap_keys)
    ultimately show "flatten_run st p (VMap es) (sched_of (VMap es)) (flatten st p (VMap es))"
      by (simp add: run_Map)
  qed
next
  case (5 st p xs)
  then show ?case by (simp add: run_Slice)
next
  case (6 st p s)
  show ?case by (simp add: run_String)
next
  case (7 st p k)
  show ?case using run_Other [of st p k] by simp
next
  case (8 p st)
  show ?case by (simp add: map_done)
next
  case (9 k v es p st)
  show ?case
  proof (intro allI impI)
    fix es0
    assume a: "go_valueMap ((k, v) # es) \<and> (\<forall>e \<in> set ((k, v) # es). map_of es0 (fst e) = Some (snd e))"
    then have gv: "go_value v" and gm: "go_valueMap es" and l: "map_of es0 k = Some v"
      and ls: "\<forall>e \<in> set es. map_of es0 (fst e) = Some (snd e)" by simp_all
    let ?st = "if is_String k then st else logmsg (KeyNotString p k) st"
    from 9(1) gv have r: "flatten_run ?st (p @ key_String k) v (sched_of v) (flatten ?st (p @ key_String k) v)"
      by simp
    show "flattenMap_run es0 p st (schedMap ((k, v) # es)) (flattenMap ((k, v) # es) p st)"
    proof (cases "flatten ?st (p @ key_String k) v")
      case (Inl e)
      with r have "flatten_run ?st (p @ key_String k) v (sched_of v) (Inl e)" by simp
      with l have "flattenMap_run es0 p st ((k, sched_of v) # schedMap es) (Inl e)"
        by (rule map_panic)
      with Inl show ?thesis by simp
    next
      case (Inr st')
      with r have r': "flatten_run ?st (p @ key_String k) v (sched_of v) (Inr st')" by simp
      from 9(2) [OF Inr] gm ls
      have "flattenMap_run es0 p st' (schedMap es) (flattenMap es p st')" by blast
      with l r' have "flattenMap_run es0 p st ((k, sched_of v) # schedMap es) (flattenMap es p st')"
        by (rule map_next)
      with Inr show ?thesis by simp
    qed
  qed
next
  case (10 xs p st)
  then show ?case by simp
next
  case (11 i p st)
  show ?case by (simp add: slice_done)
next
  case (12 i x xs p st)
  show ?case
  proof
    assume "go_valueSlice (x # xs)"
    then have gx: "go_value x" and gs: "go_valueSlice xs" by simp_all
    from 12(1) gx have r: "flatten_run st (p @ Sprintf_d i) x (sched_of x) (flatten st (p @ Sprintf_d i) x)"
      by simp
    show "flattenSlice_run i (x # xs) p st (schedSlice (x # xs)) (flattenSlice_loop i (x # xs) p st)"
    proof (cases "flatten st (p @ Sprintf_d i) x")
      case (Inl e)
      with r have "flatten_run st (p @ Sprintf_d i) x (sched_of x) (Inl e)" by simp
      then have "flattenSlice_run i (x # xs) p st (sched_of x # schedSlice xs) (Inl e)"
        by (rule slice_panic)
      with Inl show ?thesis by simp
    next
      case (Inr st')
      with r have r': "flatten_run st (p @ Sprintf_d i) x (sched_of x) (Inr st')" by simp
      from 12(2) [OF Inr] gs
      have "flattenSlice_run (Suc i) xs p st' (schedSlice xs) (flattenSlice_loop (Suc i) xs p st')"
        by simp
      with r' have "flattenSlice_run i (x # xs) p st (sched_of x # schedSlice xs)
          (flattenSlice_loop (Suc i) xs p st')"
        by (rule slice_next)
      with Inr show ?thesis by simp
    qed
  qed
qed

lemma flatten_is_run: "go_value v \<Longrightarrow> flatten_run st p v (sched_of v) (flatten st p v)"
  using flatten_is_run_aux(1) by blast

lemma flattenMap_is_run:
  assumes "go_valueMap es" and "distinct (map fst es)" and "set es = set es0"
    and "distinct (map fst es0)"
  shows "flatten_run st p (VMap es0) (SMap (schedMap es)) (flattenMap es (underscore p) st)"
proof -
  from assms(3,4) have "\<forall>e \<in> set es. map_of es0 (fst e) = Some (snd e)" by auto
  with assms(1) flatten_is_run_aux(2) [of es "underscore p" st]
  have "flattenMap_run es0 (underscore p) st (schedMap es) (flattenMap es (underscore p) st)"
    by blast
  moreover have "distinct (map fst (schedMap es))" using assms(2) by (simp only: schedMap_keys)
  moreover have "set (map fst (schedMap es)) = set (map fst es0)"
    using assms(3) by (simp add: schedMap_keys)
  ultimately show ?thesis by (rule run_Map [rotated 2])
qed

text \<open>
  Claim C8. Two invocations of \<^verbatim>\<open>flatten\<close> that start from the same record, prefix and
  document and iterate the keys of every map in the same order end with the same result:
  the same flat record (and the same lines logged), or the same panic.
\<close>

theorem flatten_run_deterministic:
  assumes "flatten_run st p v s r1" and "flatten_run st p v s r2"
  shows "r1 = r2"
  using assms by (rule run_unique_aux(1))

theorem flatten_run_deterministic_witness:
  "flatten_run (Map.empty, []) ''root'' doc_abc (sched_of doc_abc)
      (flatten (Map.empty, []) ''root'' doc_abc)
   \<and> flatten_run (Map.empty, []) ''root'' doc_abc (sched_of doc_abc)
      (Inr ([''root_a_b'' \<mapsto> ''true'', ''root_a_c_#'' \<mapsto> ''2'',
             ''root_a_c_0'' \<mapsto> ''1.000000'', ''root_a_c_1'' \<mapsto> ''2.000000''], []))
   \<and> flatten (Map.empty, []) ''root'' doc_abc =
      Inr ([''root_a_b'' \<mapsto> ''true'', ''root_a_c_#'' \<mapsto> ''2'',
             ''root_a_c_0'' \<mapsto> ''1.000000'', ''root_a_c_1'' \<mapsto> ''2.000000''], [])"
proof -
  have g: "go_value doc_abc" by (simp add: doc_abc_def)
  have e: "flatten (Map.empty, []) ''root'' doc_abc =
      Inr ([''root_a_b'' \<mapsto> ''true'', ''root_a_c_#'' \<mapsto> ''2'',
             ''root_a_c_0'' \<mapsto> ''1.000000'', ''root_a_c_1'' \<mapsto> ''2.000000''], [])"
    by (simp add: doc_abc_def flatten_simps render_simps)
  have r1: "flatten_run (Map.empty, []) ''root'' doc_abc (sched_of doc_abc)
      (flatten (Map.empty, []) ''root'' doc_abc)"
    using g by (rule flatten_is_run)
  have r2: "flatten_run (Map.empty, []) ''root'' doc_abc (sched_of doc_abc)
      (Inr ([''root_a_b'' \<mapsto> ''true'', ''root_a_c_#'' \<mapsto> ''2'',
             ''root_a_c_0'' \<mapsto> ''1.000000'', ''root_a_c_1'' \<mapsto> ''2.000000''], []))"
    using r1 by (simp only: e)
  from r1 r2 flatten_run_deterministic [OF r1 r2] show ?thesis by (intro conjI)
qed

text \<open>
  Without the condition on the order the claim would not hold: the same document, prefix
  and record, iterated in the two orders of the outer map, end with different records.
\<close>

lemma run_order_matters:
  "flatten_run (Map.empty, []) ''root'' doc_a_b
      (SMap [(KStr ''a'', SMap [(KStr ''b'', SLeaf)]), (KStr ''a_b'', SLeaf)])
      (Inr ([''root_a_b'' \<mapsto> ''false''], []))
   \<and> flatten_run (Map.empty, []) ''root'' doc_a_b
      (SMap [(KStr ''a_b'', SLeaf), (KStr ''a'', SMap [(KStr ''b'', SLeaf)])])
      (Inr ([''root_a_b'' \<mapsto> ''true''], []))"
proof
  have "flatten_run (Map.empty, []) ''root'' doc_a_b (sched_of doc_a_b)
      (flatten (Map.empty, []) ''root'' doc_a_b)"
    by (rule flatten_is_run) (simp add: doc_a_b_def)
  then show "flatten_run (Map.empty, []) ''root'' doc_a_b
      (SMap [(KStr ''a'', SMap [(KStr ''b'', SLeaf)]), (KStr ''a_b'', SLeaf)])
      (Inr ([''root_a_b'' \<mapsto> ''false''], []))"
    by (simp add: doc_a_b_def flatten_simps)
  have "flatten_run (Map.empty, []) ''root''
      (VMap [(KStr ''a'', VMap [(KStr ''b'', VBool True)]), (KStr ''a_b'', VBool False)])
      (SMap (schedMap [(KStr ''a_b'', VBool False), (KStr ''a'', VMap [(KStr ''b'', VBool True)])]))
      (flattenMap [(KStr ''a_b'', VBool False), (KStr ''a'', VMap [(KStr ''b'', VBool True)])]
         (underscore ''root'') (Map.empty, []))"
    by (rule flattenMap_is_run) auto
  then show "flatten_run (Map.empty, []) ''root'' doc_a_b
      (SMap [(KStr ''a_b'', SLeaf), (KStr ''a'', SMap [(KStr ''b'', SLeaf)])])
      (Inr ([''root_a_b'' \<mapsto> ''true''], []))"
    by (simp add: doc_a_b_def flatten_simps)
qed

text \<open>
  The same for the function: the document \<^verbatim>\<open>{"a": {"b": true}, "a_b": false}\<close> listed as
  \<open>a_b, a\<close> yields another record than listed as \<open>a, a_b\<close>.
\<close>

lemma key_order_matters:
  "flatten (Map.empty, []) ''root''
     (VMap [(KStr ''a_b'', VBool False), (KStr ''a'', VMap [(KStr ''b'', VBool True)])]) =
     Inr ([''root_a_b'' \<mapsto> ''true''], [])
   \<and> flatten (Map.empty, []) ''root''
     (VMap [(KStr ''a'', VMap [(KStr ''b'', VBool True)]), (KStr ''a_b'', VBool False)]) =
     Inr ([''root_a_b'' \<mapsto> ''false''], [])"
  by (simp add: flatten_simps)

section \<open>Anomalies met while flattening\<close>

text \<open>
  Claim C5 as the specification words it does not hold for null: flattening
  \<^verbatim>\<open>{"a": null, "b": true}\<close> logs nothing.
\<close>

theorem flatten_nil_not_logged:
  "flatten (Map.empty, []) ''root'' (VMap [(KStr ''a'', VNil), (KStr ''b'', VBool True)]) =
     Inr ([''root_b'' \<mapsto> ''true''], [])"
  by (simp add: flatten_simps)

text \<open>
  Claim C5, as the code has it. A null node leaves record and log as they are; a node of
  a kind the switch does not list adds the line \<^verbatim>\<open>Unknown: \<close> followed by its prefix to
  the log and leaves the record as it is. In both cases the loop over a map (for a string
  key) or over a slice goes on with the next entry.
\<close>

theorem flatten_skips_nil_and_unknown:
  "flatten st p VNil = Inr st
   \<and> flatten st p (VOther kind) = Inr (fst st, snd st @ [Error (''Unknown: '' @ underscore p)])
   \<and> (is_String k \<longrightarrow> flattenMap ((k, VNil) # es) q st = flattenMap es q st)
   \<and> (is_String k \<longrightarrow> flattenMap ((k, VOther kind) # es) q st =
         flattenMap es q (fst st, snd st @ [Error (''Unknown: '' @ underscore (q @ key_String k))]))
   \<and> flattenSlice_loop i (VNil # xs) q st = flattenSlice_loop (Suc i) xs q st
   \<and> flattenSlice_loop i (VOther kind # xs) q st =
         flattenSlice_loop (Suc i) xs q
           (fst st, snd st @ [Error (''Unknown: '' @ underscore (q @ Sprintf_d i))])"
  by (simp add: logmsg_def)

theorem flatten_skips_nil_and_unknown_witness:
  "flattenMap [(KStr ''a'', VNil), (KStr ''b'', VOther ''int''), (KStr ''c'', VBool True)] ''root_''
      (Map.empty, []) =
     Inr ([''root_c'' \<mapsto> ''true''], [Error ''Unknown: root_b_''])"
  using flatten_skips_nil_and_unknown
     [of "(Map.empty, [])" "[]" "''int''" "KStr ''a''"
         "[(KStr ''b'', VOther ''int''), (KStr ''c'', VBool True)]" "''root_''" 0 "[]"]
    flatten_skips_nil_and_unknown
     [of "(Map.empty, [])" "[]" "''int''" "KStr ''b''"
         "[(KStr ''c'', VBool True)]" "''root_''" 0 "[]"]
  by (simp add: flatten_simps)

section \<open>Delivery of an event\<close>

lemma console_logs: "console (map Logged logs) = []"
  by (induction logs) simp_all

lemma remote_logs: "remote (map Logged logs) = []"
  by (induction logs) simp_all

lemma console_append: "console (tr @ tr') = console tr @ console tr'"
  by (induction tr rule: console.induct) simp_all

lemma remote_append: "remote (tr @ tr') = remote tr @ remote tr'"
  by (induction tr rule: remote.induct) simp_all

lemmas trace_simps = console_append remote_append console_logs remote_logs

text \<open>The root prefix \<^verbatim>\<open>kubewatch\<close> is not empty, so flattening an event never panics.\<close>

lemma render_never_crashes: "printEvent_render env obj \<noteq> Crashed pn"
proof
  assume "printEvent_render env obj = Crashed pn"
  then obtain dat where "flatten (Map.empty, []) ''kubewatch'' (ValueOf dat) = Inl pn"
    by (auto simp: printEvent_render_def split: sum.splits prod.splits if_splits)
  moreover have "\<exists>st'. flatten (Map.empty, []) ''kubewatch'' (ValueOf dat) = Inr st'"
    by (rule flatten_returns_aux(1)) simp
  ultimately show False by auto
qed

text \<open>
  Claim C6. When \<^verbatim>\<open>json.Marshal\<close> of the payload fails, or in flatten mode
  \<^verbatim>\<open>json.Unmarshal\<close> or the \<^verbatim>\<open>json.Marshal\<close> of the flat record fails, \<^verbatim>\<open>printEvent\<close> logs the
  error and returns: nothing is written to the console, nothing is sent to the collector.
\<close>

theorem printEvent_drops_on_encoding_error:
  "(json_Marshal env obj = Inl e \<longrightarrow>
      drops tr [Error ''Ops! Cannot marshal JSON''] (printEvent env obj tr))
   \<and> (json_Marshal env obj = Inr jsn \<and> flgFlatten env \<and> json_Unmarshal env jsn = Inl e \<longrightarrow>
      drops tr [Error ''Ops! Cannot unmarshal JSON''] (printEvent env obj tr))
   \<and> (json_Marshal env obj = Inr jsn \<and> flgFlatten env \<and> json_Unmarshal env jsn = Inr dat \<and>
      flatten (Map.empty, []) ''kubewatch'' (ValueOf dat) = Inr (r, logs) \<and>
      json_Marshal_r env r = Inl e \<longrightarrow>
      drops tr (logs @ [Error ''Ops! Cannot marshal JSON'']) (printEvent env obj tr))"
  by (simp add: printEvent_def printEvent_render_def drops_def trace_simps)

theorem printEvent_drops_on_encoding_error_witness:
  "drops [] [Error ''Ops! Cannot marshal JSON'']
     (printEvent (env_of False (Inl (Err ''unsupported type'')) (Inr []) (Inr ''{}'') False None) () [])
   \<and> drops [] [Error ''Ops! Cannot unmarshal JSON'']
     (printEvent (env_of True (Inr ''{}'') (Inl (Err ''unexpected end'')) (Inr ''{}'') False None) () [])
   \<and> drops [] [Error ''Ops! Cannot marshal JSON'']
     (printEvent (env_of True (Inr ''{}'') (Inr []) (Inl (Err ''unsupported value'')) False None) () [])"
  using printEvent_drops_on_encoding_error
      [of "env_of False (Inl (Err ''unsupported type'')) (Inr []) (Inr ''{}'') False None" "()"
          "Err ''unsupported type''" "[]"]
    printEvent_drops_on_encoding_error
      [of "env_of True (Inr ''{}'') (Inl (Err ''unexpected end'')) (Inr ''{}'') False None" "()"
          "Err ''unexpected end''" "[]" "''{}''"]
    printEvent_drops_on_encoding_error
      [of "env_of True (Inr ''{}'') (Inr []) (Inl (Err ''unsupported value'')) False None" "()"
          "Err ''unsupported value''" "[]" "''{}''" "[]" "Map.empty" "[]"]
  by (simp add: env_of_def ValueOf_def underscore_def)

text \<open>
  Claim C7. Once \<^verbatim>\<open>jsn\<close> is ready, the outcome of \<^verbatim>\<open>printEvent\<close> is decided by
  \<^verbatim>\<open>WriteEvent\<close> alone: when it succeeds the function returns, when it fails the error is
  logged with \<^verbatim>\<open>log.Fatal\<close> and the process exits with status 1. Whether the write to the
  console failed plays no part.
\<close>

theorem remote_failure_is_fatal:
  assumes "printEvent_render env obj = Ready jsn logs"
  shows "(WriteEvent env (tr @ map Logged logs @
             [Printed (jsn @ [CHR 0x0A]) (Printf_fails env (tr @ map Logged logs) (jsn @ [CHR 0x0A]))])
           (NewEvent env jsn) = None \<longrightarrow>
            fst (printEvent env obj tr) = Returned)
       \<and> (\<forall>e. WriteEvent env (tr @ map Logged logs @
             [Printed (jsn @ [CHR 0x0A]) (Printf_fails env (tr @ map Logged logs) (jsn @ [CHR 0x0A]))])
           (NewEvent env jsn) = Some e \<longrightarrow>
            fst (printEvent env obj tr) = Exited 1 \<and>
            last (snd (printEvent env obj tr)) = Logged (Fatal e))"
  using assms by (simp add: printEvent_def printEvent_send_def Let_def)

theorem remote_failure_is_fatal_witness:
  "printEvent_render (env_of False (Inr ''{}'') (Inr []) (Inr ''{}'') True (Some (Err ''refused''))) ()
      = Ready ''{}'' []
   \<and> fst (printEvent (env_of False (Inr ''{}'') (Inr []) (Inr ''{}'') True (Some (Err ''refused''))) () [])
      = Exited 1
   \<and> fst (printEvent (env_of False (Inr ''{}'') (Inr []) (Inr ''{}'') True None) () []) = Returned"
proof -
  have 1: "printEvent_render (env_of False (Inr ''{}'') (Inr []) (Inr ''{}'') True (Some (Err ''refused''))) ()
      = Ready ''{}'' []"
    by (simp add: printEvent_render_def env_of_def)
  have 2: "printEvent_render (env_of False (Inr ''{}'') (Inr []) (Inr ''{}'') True None) ()
      = Ready ''{}'' []"
    by (simp add: printEvent_render_def env_of_def)
  show ?thesis
    using 1 remote_failure_is_fatal [OF 1, of "[]"] remote_failure_is_fatal [OF 2, of "[]"]
    by (simp add: env_of_def)
qed

lemma ready_trace:
  assumes "printEvent_render env obj = Ready jsn logs"
  shows "snd (printEvent env obj tr) =
     tr @ map Logged logs @
     [Printed (jsn @ [CHR 0x0A]) (Printf_fails env (tr @ map Logged logs) (jsn @ [CHR 0x0A])),
      Sent (NewEvent env jsn)
        (WriteEvent env (tr @ map Logged logs @
           [Printed (jsn @ [CHR 0x0A]) (Printf_fails env (tr @ map Logged logs) (jsn @ [CHR 0x0A]))])
           (NewEvent env jsn))] @
     (case WriteEvent env (tr @ map Logged logs @
           [Printed (jsn @ [CHR 0x0A]) (Printf_fails env (tr @ map Logged logs) (jsn @ [CHR 0x0A]))])
           (NewEvent env jsn) of None \<Rightarrow> [] | Some e \<Rightarrow> [Logged (Fatal e)])"
  using assms by (simp add: printEvent_def printEvent_send_def Let_def split: option.splits)

lemma console_of_delivery:
  "console (tr @ map Logged logs @ [Printed line f, Sent ev w] @
      (case w of None \<Rightarrow> [] | Some e \<Rightarrow> [Logged (Fatal e)])) =
   console tr @ (if f then [] else [line])"
  by (cases w) (simp_all add: trace_simps)

lemma remote_of_delivery:
  "remote (tr @ map Logged logs @ [Printed line f, Sent ev w] @
      (case w of None \<Rightarrow> [] | Some e \<Rightarrow> [Logged (Fatal e)])) = remote tr @ [ev]"
  by (cases w) (simp_all add: trace_simps)

text \<open>
  Claim C10, as the code has it. Whenever \<^verbatim>\<open>printEvent\<close> hands an event to the collector,
  it has called \<^verbatim>\<open>Printf\<close> with the line of the same JSON immediately before, also when the
  collector fails and the process exits; an event that is not printed is not sent either.
  When that write to the console succeeded, the line is on the console before the event
  is sent; when it failed, the error is discarded, the console is as it was and the event
  is sent all the same.
\<close>

theorem console_attempt_before_remote:
  "(\<forall>jsn logs. printEvent_render env obj = Ready jsn logs \<longrightarrow>
      (\<exists>res rest. snd (printEvent env obj tr) =
          tr @ map Logged logs @
          [Printed (jsn @ [CHR 0x0A]) (Printf_fails env (tr @ map Logged logs) (jsn @ [CHR 0x0A])),
           Sent (NewEvent env jsn) res] @ rest
        \<and> event_body (NewEvent env jsn) = jsn
        \<and> (rest = [] \<or> (\<exists>e. res = Some e \<and> rest = [Logged (Fatal e)]))
        \<and> remote (snd (printEvent env obj tr)) = remote tr @ [NewEvent env jsn])
      \<and> (\<not> Printf_fails env (tr @ map Logged logs) (jsn @ [CHR 0x0A]) \<longrightarrow>
            console (snd (printEvent env obj tr)) = console tr @ [jsn @ [CHR 0x0A]])
      \<and> (Printf_fails env (tr @ map Logged logs) (jsn @ [CHR 0x0A]) \<longrightarrow>
            console (snd (printEvent env obj tr)) = console tr))
   \<and> ((\<forall>jsn logs. printEvent_render env obj \<noteq> Ready jsn logs) \<longrightarrow>
        remote (snd (printEvent env obj tr)) = remote tr)"
proof (cases "printEvent_render env obj")
  case (Dropped logs)
  then show ?thesis by (simp add: printEvent_def trace_simps)
next
  case (Ready jsn logs)
  note t = ready_trace [OF Ready, of tr]
  have c: "console (snd (printEvent env obj tr)) =
      console tr @ (if Printf_fails env (tr @ map Logged logs) (jsn @ [CHR 0x0A]) then []
                    else [jsn @ [CHR 0x0A]])"
    by (simp only: t console_of_delivery)
  have r: "remote (snd (printEvent env obj tr)) = remote tr @ [NewEvent env jsn]"
    by (simp only: t remote_of_delivery)
  have b: "event_body (NewEvent env jsn) = jsn" by (simp add: NewEvent_def)
  have e: "\<exists>res rest. snd (printEvent env obj tr) =
          tr @ map Logged logs @
          [Printed (jsn @ [CHR 0x0A]) (Printf_fails env (tr @ map Logged logs) (jsn @ [CHR 0x0A])),
           Sent (NewEvent env jsn) res] @ rest
        \<and> event_body (NewEvent env jsn) = jsn
        \<and> (rest = [] \<or> (\<exists>e. res = Some e \<and> rest = [Logged (Fatal e)]))
        \<and> remote (snd (printEvent env obj tr)) = remote tr @ [NewEvent env jsn]"
  proof (intro exI conjI)
    show "snd (printEvent env obj tr) =
          tr @ map Logged logs @
          [Printed (jsn @ [CHR 0x0A]) (Printf_fails env (tr @ map Logged logs) (jsn @ [CHR 0x0A])),
           Sent (NewEvent env jsn)
             (WriteEvent env (tr @ map Logged logs @
               [Printed (jsn @ [CHR 0x0A]) (Printf_fails env (tr @ map Logged logs) (jsn @ [CHR 0x0A]))])
               (NewEvent env jsn))] @
          (case WriteEvent env (tr @ map Logged logs @
               [Printed (jsn @ [CHR 0x0A]) (Printf_fails env (tr @ map Logged logs) (jsn @ [CHR 0x0A]))])
               (NewEvent env jsn) of None \<Rightarrow> [] | Some e \<Rightarrow> [Logged (Fatal e)])"
      by (rule t)
    show "event_body (NewEvent env jsn) = jsn" by (rule b)
    show "(case WriteEvent env (tr @ map Logged logs @
               [Printed (jsn @ [CHR 0x0A]) (Printf_fails env (tr @ map Logged logs) (jsn @ [CHR 0x0A]))])
               (NewEvent env jsn) of None \<Rightarrow> [] | Some e \<Rightarrow> [Logged (Fatal e)]) = []
        \<or> (\<exists>e. WriteEvent env (tr @ map Logged logs @
               [Printed (jsn @ [CHR 0x0A]) (Printf_fails env (tr @ map Logged logs) (jsn @ [CHR 0x0A]))])
               (NewEvent env jsn) = Some e
            \<and> (case WriteEvent env (tr @ map Logged logs @
               [Printed (jsn @ [CHR 0x0A]) (Printf_fails env (tr @ map Logged logs) (jsn @ [CHR 0x0A]))])
               (NewEvent env jsn) of None \<Rightarrow> [] | Some e \<Rightarrow> [Logged (Fatal e)]) = [Logged (Fatal e)])"
      by (simp split: option.splits)
    show "remote (snd (printEvent env obj tr)) = remote tr @ [NewEvent env jsn]" by (rule r)
  qed
  from Ready e c show ?thesis by simp
next
  case (Crashed pn)
  then show ?thesis by (simp add: render_never_crashes)
qed

theorem console_attempt_before_remote_witness:
  "printEvent_render (env_of False (Inr ''{}'') (Inr []) (Inr ''{}'') False (Some (Err ''refused''))) ()
      = Ready ''{}'' []
   \<and> console (snd (printEvent
        (env_of False (Inr ''{}'') (Inr []) (Inr ''{}'') False (Some (Err ''refused''))) () []))
      = [''{}'' @ [CHR 0x0A]]
   \<and> map event_body (remote (snd (printEvent
        (env_of False (Inr ''{}'') (Inr []) (Inr ''{}'') False (Some (Err ''refused''))) () [])))
      = [''{}'']"
proof -
  have 1: "printEvent_render
      (env_of False (Inr ''{}'') (Inr []) (Inr ''{}'') False (Some (Err ''refused''))) ()
      = Ready ''{}'' []"
    by (simp add: printEvent_render_def env_of_def)
  have 2: "\<not> Printf_fails (env_of False (Inr ''{}'') (Inr []) (Inr ''{}'') False (Some (Err ''refused'')))
      ([] @ map Logged []) (''{}'' @ [CHR 0x0A])"
    by (simp add: env_of_def)
  show ?thesis
    using 1 2 console_attempt_before_remote
      [of "env_of False (Inr ''{}'') (Inr []) (Inr ''{}'') False (Some (Err ''refused''))" "()" "[]"]
    by auto
qed

text \<open>
  Claim C10 as the specification words it does not hold when the write to the console
  fails: the event is sent to the collector, nothing has reached the console, and
  \<^verbatim>\<open>printEvent\<close> returns normally.
\<close>

theorem sent_but_not_on_console:
  "map event_body (remote (snd (printEvent
        (env_of False (Inr ''{}'') (Inr []) (Inr ''{}'') True None) () []))) = [''{}'']
   \<and> console (snd (printEvent
        (env_of False (Inr ''{}'') (Inr []) (Inr ''{}'') True None) () [])) = []
   \<and> fst (printEvent (env_of False (Inr ''{}'') (Inr []) (Inr ''{}'') True None) () []) = Returned"
  by (simp add: printEvent_def printEvent_render_def printEvent_send_def Let_def NewEvent_def
      env_of_def)

section \<open>Decimal renderings are distinct\<close>

lemma digit_inj: "a < 10 \<Longrightarrow> b < 10 \<Longrightarrow> digit a = digit b \<Longrightarrow> a = b"
proof -
  assume a: "a < 10" and b: "b < 10" and e: "digit a = digit b"
  have d: "distinct ''0123456789''" by simp
  have "a < length ''0123456789''" "b < length ''0123456789''" using a b by simp_all
  with d e show "a = b" unfolding digit_def by (simp only: nth_eq_iff_index_eq)
qed

lemma digit_mem: "d < 10 \<Longrightarrow> digit d \<in> set ''0123456789''"
  unfolding digit_def by (rule nth_mem) simp

lemma decimal_not_Nil: "decimal n \<noteq> []"
  by (subst decimal.simps) simp

lemma decimal_chars: "set (decimal n) \<subseteq> set ''0123456789''"
proof (induction n rule: decimal.induct)
  case (1 n)
  show ?case
  proof (cases "n < 10")
    case True
    then show ?thesis using digit_mem [of n] by (simp add: decimal_digit)
  next
    case False
    have "n mod 10 < 10" by simp
    then have "digit (n mod 10) \<in> set ''0123456789''" by (rule digit_mem)
    with False 1 show ?thesis by (simp add: decimal_step)
  qed
qed

lemma decimal_no_underscore: "CHR ''_'' \<notin> set (decimal n)"
  using decimal_chars [of n] by auto

lemma decimal_not_hash: "decimal n \<noteq> ''#''"
proof
  assume "decimal n = ''#''"
  then have "CHR ''#'' \<in> set (decimal n)" by simp
  with decimal_chars [of n] show False by auto
qed

lemma decimal_inj: "decimal a = decimal b \<Longrightarrow> a = b"
proof (induction a arbitrary: b rule: decimal.induct)
  case (1 a)
  show ?case
  proof (cases "a < 10")
    case a: True
    show ?thesis
    proof (cases "b < 10")
      case True
      with a 1(2) show ?thesis by (simp add: decimal_digit digit_inj)
    next
      case False
      with a 1(2) decimal_not_Nil [of "b div 10"] show ?thesis
        by (simp add: decimal_digit decimal_step)
    qed
  next
    case a: False
    show ?thesis
    proof (cases "b < 10")
      case True
      with a 1(2) decimal_not_Nil [of "a div 10"] show ?thesis
        by (simp add: decimal_digit decimal_step)
    next
      case False
      with a 1(2) have "decimal (a div 10) = decimal (b div 10)"
        and "digit (a mod 10) = digit (b mod 10)"
        by (simp_all add: decimal_step)
      then have "a div 10 = b div 10" and "a mod 10 = b mod 10"
        using 1(1) [OF a] digit_inj [of "a mod 10" "b mod 10"] by simp_all
      then show ?thesis by (metis div_mult_mod_eq)
    qed
  qed
qed

section \<open>Flattening a slice\<close>

lemma each_element_Inl: "each_element q ixs (Inl e) = Inl e"
  by (induction ixs) (simp_all add: each_element_def split: prod.splits)

lemma each_element_Cons:
  "each_element q ((i, x) # ixs) (Inr st) = each_element q ixs (flatten st (q @ Sprintf_d i) x)"
  by (simp add: each_element_def)

lemma loop_each_element:
  "flattenSlice_loop i xs q st = each_element q (zip [i..<i + length xs] xs) (Inr st)"
proof (induction xs arbitrary: i st)
  case Nil
  show ?case by (simp add: each_element_def)
next
  case (Cons x xs)
  have "i < i + length (x # xs)" by simp
  then have "[i..<i + length (x # xs)] = i # [Suc i..<i + length (x # xs)]"
    by (rule upt_conv_Cons)
  moreover have "i + length (x # xs) = Suc i + length xs" by simp
  ultimately have u: "[i..<i + length (x # xs)] = i # [Suc i..<Suc i + length xs]"
    by (simp only:)
  have z: "zip [i..<i + length (x # xs)] (x # xs) = (i, x) # zip [Suc i..<Suc i + length xs] xs"
    by (simp only: u zip_Cons_Cons)
  have "flattenSlice_loop i (x # xs) q st =
      each_element q (zip [Suc i..<Suc i + length xs] xs) (flatten st (q @ Sprintf_d i) x)"
  proof (cases "flatten st (q @ Sprintf_d i) x")
    case (Inl e)
    then show ?thesis by (simp add: each_element_Inl)
  next
    case (Inr st')
    then show ?thesis using Cons.IH [of "Suc i" st'] by simp
  qed
  then show ?case by (simp only: z each_element_Cons)
qed

lemma flatten_scalar:
  "is_scalar x \<Longrightarrow> q \<noteq> [] \<Longrightarrow> flatten (r, l) q x = Inr (r(q \<mapsto> scalar_text x), l)"
  by (cases x) (simp_all add: flatten_simps)

lemma loop_scalars:
  "list_all is_scalar xs \<Longrightarrow>
   \<exists>r'. flattenSlice_loop i xs q (r, l) = Inr (r', l)
      \<and> (\<forall>j<length xs. r' (q @ Sprintf_d (i + j)) = Some (scalar_text (xs ! j)))
      \<and> (\<forall>k. (\<forall>j<length xs. k \<noteq> q @ Sprintf_d (i + j)) \<longrightarrow> r' k = r k)"
proof (induction xs arbitrary: i r)
  case Nil
  show ?case by simp
next
  case (Cons x xs)
  then have x: "is_scalar x" and xs: "list_all is_scalar xs" by simp_all
  have ne: "q @ Sprintf_d i \<noteq> []" by (simp add: Sprintf_d_def decimal_not_Nil)
  let ?r1 = "r(q @ Sprintf_d i \<mapsto> scalar_text x)"
  from Cons.IH [OF xs, of "Suc i" ?r1] obtain r' where
    run: "flattenSlice_loop (Suc i) xs q (?r1, l) = Inr (r', l)"
    and hit: "\<forall>j<length xs. r' (q @ Sprintf_d (Suc i + j)) = Some (scalar_text (xs ! j))"
    and miss: "\<forall>k. (\<forall>j<length xs. k \<noteq> q @ Sprintf_d (Suc i + j)) \<longrightarrow> r' k = ?r1 k"
    by blast
  have first: "r' (q @ Sprintf_d i) = Some (scalar_text x)"
  proof -
    have "\<forall>j<length xs. q @ Sprintf_d i \<noteq> q @ Sprintf_d (Suc i + j)"
      by (auto simp: Sprintf_d_def dest: decimal_inj)
    with miss have "r' (q @ Sprintf_d i) = ?r1 (q @ Sprintf_d i)" by blast
    then show ?thesis by simp
  qed
  have "flattenSlice_loop i (x # xs) q (r, l) = Inr (r', l)"
    using run by (simp add: flatten_scalar [OF x ne])
  moreover have "\<forall>j<length (x # xs). r' (q @ Sprintf_d (i + j)) = Some (scalar_text ((x # xs) ! j))"
  proof (intro allI impI)
    fix j assume "j < length (x # xs)"
    then show "r' (q @ Sprintf_d (i + j)) = Some (scalar_text ((x # xs) ! j))"
      using first hit by (cases j) simp_all
  qed
  moreover have "\<forall>k. (\<forall>j<length (x # xs). k \<noteq> q @ Sprintf_d (i + j)) \<longrightarrow> r' k = r k"
  proof (intro allI impI)
    fix k assume k: "\<forall>j<length (x # xs). k \<noteq> q @ Sprintf_d (i + j)"
    then have "k \<noteq> q @ Sprintf_d i" by force
    moreover from k have "\<forall>j<length xs. k \<noteq> q @ Sprintf_d (Suc i + j)" by force
    ultimately show "r' k = r k" using miss by simp
  qed
  ultimately show ?case by blast
qed

lemma child_keys_card: "card {q @ Sprintf_d i | i. i < n} = n"
proof -
  have "{q @ Sprintf_d i | i. i < n} = (\<lambda>i. q @ Sprintf_d i) ` {..<n}" by auto
  moreover have "inj_on (\<lambda>i. q @ Sprintf_d i) {..<n}"
    by (rule inj_onI) (simp add: Sprintf_d_def decimal_inj)
  ultimately show ?thesis by (simp add: card_image)
qed

lemma hash_not_child: "q @ ''#'' \<notin> {q @ Sprintf_d i | i. i < n}"
proof
  assume "q @ ''#'' \<in> {q @ Sprintf_d i | i. i < n}"
  then obtain i where "q @ ''#'' = q @ Sprintf_d i" by blast
  then have "decimal i = ''#''" by (simp add: Sprintf_d_def)
  then show False by (simp add: decimal_not_hash)
qed

text \<open>
  Claim C2, as the code has it. Write \<open>P'\<close> for \<open>underscore P\<close>: the prefix \<open>P\<close> followed by an
  underscore, or \<open>P\<close> itself when it is empty. Flattening a slice of length \<open>N\<close> at prefix
  \<open>P\<close> stores the decimal text of \<open>N\<close> under \<open>P' + "#"\<close> and then runs \<^verbatim>\<open>flatten\<close> on
  the elements in order, element \<open>i\<close> with prefix \<open>P'\<close> followed by the decimal text of \<open>i\<close>.
  When every element is a scalar, the record gains exactly the length key and the \<open>N\<close>
  pairwise different child keys \<open>P'0 \<dots> P'(N-1)\<close>, each holding the text of its element;
  every other key keeps its value and nothing is logged.
\<close>

theorem flatten_slice_keys:
  "flatten st p (VSlice xs) =
      each_element (underscore p) (zip [0..<length xs] xs)
        (Inr (assign (underscore p @ ''#'') (Sprintf_d (length xs)) st))
   \<and> (p \<noteq> [] \<longrightarrow> underscore p = p @ ''_'')
   \<and> (list_all is_scalar xs \<longrightarrow>
       (\<exists>r'. flatten st p (VSlice xs) = Inr (r', snd st)
          \<and> r' (underscore p @ ''#'') = Some (Sprintf_d (length xs))
          \<and> (\<forall>i<length xs. r' (underscore p @ Sprintf_d i) = Some (scalar_text (xs ! i)))
          \<and> dom r' = dom (fst st) \<union> {underscore p @ ''#''}
                    \<union> {underscore p @ Sprintf_d i | i. i < length xs}
          \<and> (\<forall>k. k \<noteq> underscore p @ ''#''
                 \<and> k \<notin> {underscore p @ Sprintf_d i | i. i < length xs} \<longrightarrow> r' k = fst st k)))
   \<and> card {underscore p @ Sprintf_d i | i. i < length xs} = length xs
   \<and> underscore p @ ''#'' \<notin> {underscore p @ Sprintf_d i | i. i < length xs}"
proof (intro conjI impI)
  let ?q = "underscore p"
  let ?n = "length xs"
  let ?r0 = "(fst st)(?q @ ''#'' \<mapsto> Sprintf_d ?n)"
  show "flatten st p (VSlice xs) =
      each_element ?q (zip [0..<?n] xs) (Inr (assign (?q @ ''#'') (Sprintf_d ?n) st))"
    using loop_each_element [of 0 xs ?q] by simp
  show "underscore p = p @ ''_''" if "p \<noteq> []"
    using that by (simp add: underscore_def)
  show "card {?q @ Sprintf_d i | i. i < ?n} = ?n"
    by (rule child_keys_card)
  show "?q @ ''#'' \<notin> {?q @ Sprintf_d i | i. i < ?n}"
    by (rule hash_not_child)
  show "\<exists>r'. flatten st p (VSlice xs) = Inr (r', snd st)
          \<and> r' (?q @ ''#'') = Some (Sprintf_d ?n)
          \<and> (\<forall>i<?n. r' (?q @ Sprintf_d i) = Some (scalar_text (xs ! i)))
          \<and> dom r' = dom (fst st) \<union> {?q @ ''#''} \<union> {?q @ Sprintf_d i | i. i < ?n}
          \<and> (\<forall>k. k \<noteq> ?q @ ''#'' \<and> k \<notin> {?q @ Sprintf_d i | i. i < ?n} \<longrightarrow> r' k = fst st k)"
    if sc: "list_all is_scalar xs"
  proof -
    from loop_scalars [OF sc, of 0 ?q ?r0 "snd st"] obtain r' where
      run: "flattenSlice_loop 0 xs ?q (?r0, snd st) = Inr (r', snd st)"
      and hit: "\<forall>j<?n. r' (?q @ Sprintf_d j) = Some (scalar_text (xs ! j))"
      and miss: "\<forall>k. (\<forall>j<?n. k \<noteq> ?q @ Sprintf_d j) \<longrightarrow> r' k = ?r0 k"
      by auto
    have 1: "flatten st p (VSlice xs) = Inr (r', snd st)"
      using run by (simp add: assign_def)
    have "\<forall>j<?n. ?q @ ''#'' \<noteq> ?q @ Sprintf_d j"
      using hash_not_child [of ?q ?n] by auto
    with miss have 2: "r' (?q @ ''#'') = Some (Sprintf_d ?n)" by simp
    have 4: "\<forall>k. k \<noteq> ?q @ ''#'' \<and> k \<notin> {?q @ Sprintf_d i | i. i < ?n} \<longrightarrow> r' k = fst st k"
    proof (intro allI impI)
      fix k assume k: "k \<noteq> ?q @ ''#'' \<and> k \<notin> {?q @ Sprintf_d i | i. i < ?n}"
      then have "\<forall>j<?n. k \<noteq> ?q @ Sprintf_d j" by auto
      with miss have "r' k = ?r0 k" by simp
      with k show "r' k = fst st k" by simp
    qed
    have 3: "dom r' = dom (fst st) \<union> {?q @ ''#''} \<union> {?q @ Sprintf_d i | i. i < ?n}"
    proof (rule set_eqI)
      fix k
      show "k \<in> dom r' \<longleftrightarrow> k \<in> dom (fst st) \<union> {?q @ ''#''} \<union> {?q @ Sprintf_d i | i. i < ?n}"
      proof (cases "k = ?q @ ''#'' \<or> k \<in> {?q @ Sprintf_d i | i. i < ?n}")
        case True
        then show ?thesis using 2 hit by auto
      next
        case False
        then have "r' k = fst st k" using 4 by simp
        with False show ?thesis by (auto simp: dom_def)
      qed
    qed
    from 1 2 hit 3 4 show ?thesis by blast
  qed
qed

theorem flatten_slice_keys_witness:
  "list_all is_scalar [VBool True, VString ''x'']
   \<and> (\<exists>r'. flatten (Map.empty, []) ''p'' (VSlice [VBool True, VString ''x'']) = Inr (r', [])
        \<and> r' ''p_#'' = Some ''2''
        \<and> dom r' = {''p_#''} \<union> {''p_'' @ Sprintf_d i | i. i < length [VBool True, VString ''x'']})"
proof -
  have sc: "list_all is_scalar [VBool True, VString ''x'']" by simp
  have u: "underscore ''p'' = ''p_''" by (simp add: underscore_def)
  have n: "Sprintf_d (length [VBool True, VString ''x'']) = ''2''" by (simp add: render_simps)
  note t = flatten_slice_keys [of "(Map.empty, [])" "''p''" "[VBool True, VString ''x'']"]
  note ex = t [THEN conjunct2, THEN conjunct2, THEN conjunct1, THEN mp, OF sc]
  from ex obtain r' where
    h: "flatten (Map.empty, []) ''p'' (VSlice [VBool True, VString ''x'']) =
          Inr (r', snd (Map.empty :: strIfce, [] :: logline list))
        \<and> r' (underscore ''p'' @ ''#'') = Some (Sprintf_d (length [VBool True, VString ''x'']))
        \<and> (\<forall>i<length [VBool True, VString ''x''].
              r' (underscore ''p'' @ Sprintf_d i) = Some (scalar_text ([VBool True, VString ''x''] ! i)))
        \<and> dom r' = dom (fst (Map.empty :: strIfce, [] :: logline list)) \<union> {underscore ''p'' @ ''#''}
              \<union> {underscore ''p'' @ Sprintf_d i | i. i < length [VBool True, VString ''x'']}
        \<and> (\<forall>k. k \<noteq> underscore ''p'' @ ''#''
              \<and> k \<notin> {underscore ''p'' @ Sprintf_d i | i. i < length [VBool True, VString ''x'']}
              \<longrightarrow> r' k = fst (Map.empty :: strIfce, [] :: logline list) k)" ..
  have 1: "flatten (Map.empty, []) ''p'' (VSlice [VBool True, VString ''x'']) = Inr (r', [])"
    using h [THEN conjunct1] by (simp only: snd_conv)
  have 2: "r' ''p_#'' = Some ''2''"
    using h [THEN conjunct2, THEN conjunct1] by (simp only: u n append_Cons append_Nil)
  have 4: "dom r' = {''p_#''} \<union> {''p_'' @ Sprintf_d i | i. i < length [VBool True, VString ''x'']}"
    using h [THEN conjunct2, THEN conjunct2, THEN conjunct2, THEN conjunct1]
    by (simp only: u fst_conv dom_empty Un_empty_left append_Cons append_Nil)
  show ?thesis
    by (intro conjI exI [where x = r']) (fact sc 1 2 4)+
qed

text \<open>
  Claim C2 as the specification words it does not hold: for the slice \<^verbatim>\<open>[true]\<close> at prefix
  \<^verbatim>\<open>p\<close> the keys are \<^verbatim>\<open>p_#\<close> and \<^verbatim>\<open>p_0\<close>; there is no key \<^verbatim>\<open>p#\<close> and no key \<^verbatim>\<open>p0\<close>.
\<close>

theorem flatten_slice_keys_not_as_specified:
  "flatten (Map.empty, []) ''p'' (VSlice [VBool True]) =
     Inr ([''p_#'' \<mapsto> ''1'', ''p_0'' \<mapsto> ''true''], [])
   \<and> [''p_#'' \<mapsto> ''1'', ''p_0'' \<mapsto> ''true''] ''p#'' = None
   \<and> [''p_#'' \<mapsto> ''1'', ''p_0'' \<mapsto> ''true''] ''p0'' = None"
  by (simp add: flatten_simps render_simps)

section \<open>The record is the emitted entries, stored in order\<close>

lemma store_append: "store (a @ b) r = store b (store a r)"
  by (simp add: store_def)

lemma store_Nil: "store [] r = r"
  by (simp add: store_def)

lemma store_Cons: "store ((k, x) # kvs) r = store kvs (r(k \<mapsto> x))"
  by (simp add: store_def)

lemma key_of_Nil: "key_of p [] = p"
  by (simp add: key_of_def)

lemma key_of_Cons: "key_of p (s # \<pi>) = key_of (p @ ''_'' @ seg s) \<pi>"
  by (simp add: key_of_def)

lemma keyed_under: "keyed p (under s ls) = keyed (p @ ''_'' @ seg s) ls"
  by (induction ls) (auto simp: keyed_def under_def key_of_Cons)

lemma keyed_append: "keyed p (a @ b) = keyed p a @ keyed p b"
  by (simp add: keyed_def)

lemma flatten_stores_aux:
  "p \<noteq> [] \<longrightarrow> (\<exists>l'. flatten st p v = Inr (store (keyed p (leaves v)) (fst st), l'))"
  "\<forall>p'. q = p' @ ''_'' \<longrightarrow>
     (\<exists>l'. flattenMap es q st1 = Inr (store (keyed p' (leavesMap es)) (fst st1), l'))"
  "\<forall>p'. q2 = p' @ ''_'' \<longrightarrow>
     (\<exists>l'. flattenSlice xs q2 st2 =
        Inr (store (keyed p' (([Len], Sprintf_d (length xs)) # leavesSlice 0 xs)) (fst st2), l'))"
  "\<forall>p'. q3 = p' @ ''_'' \<longrightarrow>
     (\<exists>l'. flattenSlice_loop i ys q3 st3 = Inr (store (keyed p' (leavesSlice i ys)) (fst st3), l'))"
proof (induction st p v and es q st1 and xs q2 st2 and i ys q3 st3
    rule: flatten_flattenMap_flattenSlice_flattenSlice_loop.induct)
  case (1 st p)
  show ?case by (cases st) (simp add: keyed_def store_Nil)
next
  case (2 st p b)
  show ?case
    by (cases b) (simp_all add: flatten_simps keyed_def, simp_all add: store_Cons store_Nil key_of_Nil)
next
  case (3 st p f)
  show ?case
    by (simp add: flatten_simps keyed_def, simp add: store_Cons store_Nil key_of_Nil)
next
  case (4 st p es)
  then show ?case by (simp add: underscore_def)
next
  case (5 st p xs)
  then show ?case by (simp add: underscore_def)
next
  case (6 st p s)
  show ?case
    by (simp add: flatten_simps keyed_def, simp add: store_Cons store_Nil key_of_Nil)
next
  case (7 st p k)
  show ?case by (simp add: keyed_def store_Nil logmsg_def)
next
  case (8 p st)
  show ?case by (cases st) (simp add: keyed_def store_Nil)
next
  case (9 k v es p st)
  show ?case
  proof (intro allI impI)
    fix p' assume q: "p = p' @ ''_''"
    let ?st = "if is_String k then st else logmsg (KeyNotString p k) st"
    have fs: "fst ?st = fst st" by (simp add: logmsg_def)
    from 9(1) obtain l1 where
      a: "flatten ?st (p @ key_String k) v = Inr (store (keyed (p @ key_String k) (leaves v)) (fst st), l1)"
      using q fs by auto
    from 9(2) [OF a] q obtain l2 where
      b: "flattenMap es p (store (keyed (p @ key_String k) (leaves v)) (fst st), l1) =
          Inr (store (keyed p' (leavesMap es)) (store (keyed (p @ key_String k) (leaves v)) (fst st)), l2)"
      by auto
    show "\<exists>l'. flattenMap ((k, v) # es) p st = Inr (store (keyed p' (leavesMap ((k, v) # es))) (fst st), l')"
      using a b q by (cases "is_String k") (simp_all add: keyed_append keyed_under store_append)
  qed
next
  case (10 xs p st)
  show ?case
  proof (intro allI impI)
    fix p' assume q: "p = p' @ ''_''"
    from 10 q obtain l' where
      "flattenSlice_loop 0 xs p (assign (p @ ''#'') (Sprintf_d (length xs)) st) =
         Inr (store (keyed p' (leavesSlice 0 xs)) (fst (assign (p @ ''#'') (Sprintf_d (length xs)) st)), l')"
      by auto
    then show "\<exists>l'. flattenSlice xs p st =
        Inr (store (keyed p' (([Len], Sprintf_d (length xs)) # leavesSlice 0 xs)) (fst st), l')"
      using q by (simp add: keyed_def store_Cons assign_def key_of_def)
  qed
next
  case (11 i p st)
  show ?case by (cases st) (simp add: keyed_def store_Nil)
next
  case (12 i x xs p st)
  show ?case
  proof (intro allI impI)
    fix p' assume q: "p = p' @ ''_''"
    from 12(1) obtain l1 where
      a: "flatten st (p @ Sprintf_d i) x = Inr (store (keyed (p @ Sprintf_d i) (leaves x)) (fst st), l1)"
      using q by auto
    from 12(2) [OF a] q obtain l2 where
      b: "flattenSlice_loop (Suc i) xs p (store (keyed (p @ Sprintf_d i) (leaves x)) (fst st), l1) =
          Inr (store (keyed p' (leavesSlice (Suc i) xs)) (store (keyed (p @ Sprintf_d i) (leaves x)) (fst st)), l2)"
      by auto
    show "\<exists>l'. flattenSlice_loop i (x # xs) p st = Inr (store (keyed p' (leavesSlice i (x # xs))) (fst st), l')"
      using a b q by (simp add: keyed_append keyed_under store_append)
  qed
qed

section \<open>Keys of plain documents do not collide\<close>

lemma key_of_join: "key_of p \<pi> = p @ join (map seg \<pi>)"
  by (simp add: key_of_def join_def comp_def)

lemma takeWhile_join: "takeWhile (\<lambda>c. c \<noteq> CHR ''_'') (join ss) = []"
  by (cases ss) (simp_all add: join_def)

lemma takeWhile_seg_join:
  "CHR ''_'' \<notin> set a \<Longrightarrow> takeWhile (\<lambda>c. c \<noteq> CHR ''_'') (a @ join ss) = a"
proof -
  assume "CHR ''_'' \<notin> set a"
  then have "\<And>x. x \<in> set a \<Longrightarrow> x \<noteq> CHR ''_''" by auto
  then have "takeWhile (\<lambda>c. c \<noteq> CHR ''_'') (a @ join ss) = a @ takeWhile (\<lambda>c. c \<noteq> CHR ''_'') (join ss)"
    by (rule takeWhile_append2)
  then show ?thesis by (simp add: takeWhile_join)
qed

lemma join_inj:
  "\<forall>s\<in>set ss. CHR ''_'' \<notin> set s \<Longrightarrow> \<forall>s\<in>set ts. CHR ''_'' \<notin> set s \<Longrightarrow>
   join ss = join ts \<Longrightarrow> ss = ts"
proof (induction ss arbitrary: ts)
  case Nil
  then show ?case by (cases ts) (simp_all add: join_def)
next
  case (Cons a ss)
  show ?case
  proof (cases ts)
    case Nil
    with Cons.prems show ?thesis by (simp add: join_def)
  next
    case (Cons b ts')
    with Cons.prems have e: "a @ join ss = b @ join ts'"
      by (simp add: join_def)
    have "takeWhile (\<lambda>c. c \<noteq> CHR ''_'') (a @ join ss) = a"
      using Cons.prems(1) by (simp add: takeWhile_seg_join)
    moreover have "takeWhile (\<lambda>c. c \<noteq> CHR ''_'') (b @ join ts') = b"
      using Cons.prems(2) Cons by (simp add: takeWhile_seg_join)
    ultimately have ab: "a = b" using e by simp
    with e have "join ss = join ts'" by simp
    with Cons.IH [of ts'] Cons.prems Cons have "ss = ts'" by simp
    with ab Cons show ?thesis by simp
  qed
qed

lemma seg_decimal_plain: "CHR ''_'' \<notin> set (Sprintf_d i)"
  by (simp add: Sprintf_d_def decimal_no_underscore)

lemma plain_segs_aux:
  "plain v \<longrightarrow> (\<forall>e \<in> set (leaves v). \<forall>s \<in> set (segs e). CHR ''_'' \<notin> set s)"
  "plainMap es \<longrightarrow> (\<forall>e \<in> set (leavesMap es). \<forall>s \<in> set (segs e). CHR ''_'' \<notin> set s)"
  "plainSlice xs \<longrightarrow> (\<forall>e \<in> set (leavesSlice i xs). \<forall>s \<in> set (segs e). CHR ''_'' \<notin> set s)"
proof (induction v and es and i xs rule: leaves_leavesMap_leavesSlice.induct)
  case (7 xs)
  then show ?case by (auto simp: segs_def)
next
  case (9 k v es)
  then show ?case by (auto simp: segs_def under_def)
next
  case (11 i x xs)
  then show ?case by (auto simp: segs_def under_def seg_decimal_plain)
qed (simp_all add: segs_def)

lemma segs_under: "map segs (under s ls) = map (\<lambda>z. seg s # z) (map segs ls)"
  by (induction ls) (auto simp: segs_def under_def)

lemma key_String_inj: "is_String k \<Longrightarrow> is_String k' \<Longrightarrow> key_String k = key_String k' \<Longrightarrow> k = k'"
  by (cases k; cases k') simp_all

lemma plainMap_keys: "plainMap es \<Longrightarrow> k \<in> set (map fst es) \<Longrightarrow> is_String k"
  by (induction es) force+

lemma distinct_segs_aux:
  "plain v \<longrightarrow> distinct (map segs (leaves v))"
  "plainMap es \<longrightarrow> distinct (map fst es) \<longrightarrow>
     distinct (map segs (leavesMap es)) \<and>
     (\<forall>z \<in> set (map segs (leavesMap es)). \<exists>k \<in> set (map fst es). \<exists>t. z = key_String k # t)"
  "plainSlice xs \<longrightarrow>
     distinct (map segs (leavesSlice i xs)) \<and>
     (\<forall>z \<in> set (map segs (leavesSlice i xs)). \<exists>j\<ge>i. \<exists>t. z = Sprintf_d j # t)"
proof (induction v and es and i xs rule: leaves_leavesMap_leavesSlice.induct)
  case (6 es)
  then show ?case by simp
next
  case (7 xs)
  show ?case
  proof
    assume p: "plain (VSlice xs)"
    with 7 have d: "distinct (map segs (leavesSlice 0 xs))"
      and h: "\<forall>z \<in> set (map segs (leavesSlice 0 xs)). \<exists>j\<ge>0. \<exists>t. z = Sprintf_d j # t"
      by simp_all
    have "[''#''] \<notin> set (map segs (leavesSlice 0 xs))"
    proof
      assume "[''#''] \<in> set (map segs (leavesSlice 0 xs))"
      with h obtain j t where "[''#''] = Sprintf_d j # t" by blast
      then show False by (simp add: Sprintf_d_def decimal_not_hash [symmetric])
    qed
    with d show "distinct (map segs (leaves (VSlice xs)))"
      by (simp add: segs_def)
  qed
next
  case (9 k v es)
  show ?case
  proof (intro impI)
    assume pm: "plainMap ((k, v) # es)" and dk: "distinct (map fst ((k, v) # es))"
    then have pv: "plain v" and pes: "plainMap es" and sk: "is_String k"
      and kn: "k \<notin> set (map fst es)" and des: "distinct (map fst es)"
      by simp_all
    from 9(1) pv have d1: "distinct (map segs (leaves v))" by simp
    from 9(2) pes des have d2: "distinct (map segs (leavesMap es))"
      and h2: "\<forall>z \<in> set (map segs (leavesMap es)). \<exists>k' \<in> set (map fst es). \<exists>t. z = key_String k' # t"
      by simp_all
    have d1': "distinct (map (\<lambda>z. key_String k # z) (map segs (leaves v)))"
      using d1 by (simp add: distinct_map inj_on_def)
    have disj: "set (map (\<lambda>z. key_String k # z) (map segs (leaves v))) \<inter> set (map segs (leavesMap es)) = {}"
    proof (rule ccontr)
      assume "\<not> ?thesis"
      then obtain z where z1: "z \<in> set (map (\<lambda>z. key_String k # z) (map segs (leaves v)))"
        and z2: "z \<in> set (map segs (leavesMap es))" by blast
      from z1 obtain t where "z = key_String k # t" by auto
      moreover from z2 h2 obtain k' t' where k': "k' \<in> set (map fst es)" and "z = key_String k' # t'"
        by blast
      ultimately have "key_String k = key_String k'" by simp
      with sk plainMap_keys [OF pes k'] have "k = k'" by (rule key_String_inj)
      with kn k' show False by simp
    qed
    have "distinct (map segs (leavesMap ((k, v) # es)))"
      using d1' d2 disj by (simp add: segs_under)
    moreover have "\<forall>z \<in> set (map segs (leavesMap ((k, v) # es))).
        \<exists>k' \<in> set (map fst ((k, v) # es)). \<exists>t. z = key_String k' # t"
      using h2 by (auto simp: segs_under)
    ultimately show "distinct (map segs (leavesMap ((k, v) # es))) \<and>
      (\<forall>z \<in> set (map segs (leavesMap ((k, v) # es))).
        \<exists>k' \<in> set (map fst ((k, v) # es)). \<exists>t. z = key_String k' # t)" by blast
  qed
next
  case (11 i x xs)
  show ?case
  proof (intro impI)
    assume "plainSlice (x # xs)"
    then have px: "plain x" and pxs: "plainSlice xs" by simp_all
    from 11(1) px have d1: "distinct (map segs (leaves x))" by simp
    from 11(2) pxs have d2: "distinct (map segs (leavesSlice (Suc i) xs))"
      and h2: "\<forall>z \<in> set (map segs (leavesSlice (Suc i) xs)). \<exists>j\<ge>Suc i. \<exists>t. z = Sprintf_d j # t"
      by simp_all
    have d1': "distinct (map (\<lambda>z. Sprintf_d i # z) (map segs (leaves x)))"
      using d1 by (simp add: distinct_map inj_on_def)
    have disj: "set (map (\<lambda>z. Sprintf_d i # z) (map segs (leaves x)))
        \<inter> set (map segs (leavesSlice (Suc i) xs)) = {}"
    proof (rule ccontr)
      assume "\<not> ?thesis"
      then obtain z where z1: "z \<in> set (map (\<lambda>z. Sprintf_d i # z) (map segs (leaves x)))"
        and z2: "z \<in> set (map segs (leavesSlice (Suc i) xs))" by blast
      from z1 obtain t where "z = Sprintf_d i # t" by auto
      moreover from z2 h2 obtain j t' where j: "Suc i \<le> j" and "z = Sprintf_d j # t'"
        by blast
      ultimately have "decimal i = decimal j" by (simp add: Sprintf_d_def)
      then have "i = j" by (rule decimal_inj)
      with j show False by simp
    qed
    have "distinct (map segs (leavesSlice i (x # xs)))"
      using d1' d2 disj by (simp add: segs_under)
    moreover have "\<forall>z \<in> set (map segs (leavesSlice i (x # xs))). \<exists>j\<ge>i. \<exists>t. z = Sprintf_d j # t"
    proof
      fix z assume "z \<in> set (map segs (leavesSlice i (x # xs)))"
      then consider "z \<in> set (map (\<lambda>z. Sprintf_d i # z) (map segs (leaves x)))"
        | "z \<in> set (map segs (leavesSlice (Suc i) xs))"
        by (auto simp: segs_under)
      then show "\<exists>j\<ge>i. \<exists>t. z = Sprintf_d j # t"
      proof cases
        case 1
        then show ?thesis by auto
      next
        case 2
        with h2 obtain j t where "Suc i \<le> j" "z = Sprintf_d j # t" by blast
        then show ?thesis by (intro exI [of _ j]) auto
      qed
    qed
    ultimately show "distinct (map segs (leavesSlice i (x # xs))) \<and>
      (\<forall>z \<in> set (map segs (leavesSlice i (x # xs))). \<exists>j\<ge>i. \<exists>t. z = Sprintf_d j # t)" by blast
  qed
qed (simp_all add: segs_def)

lemma store_miss: "k \<notin> fst ` set kvs \<Longrightarrow> store kvs r k = r k"
  by (induction kvs arbitrary: r) (auto simp: store_Nil store_Cons)

lemma store_hit: "distinct (map fst kvs) \<Longrightarrow> (k, x) \<in> set kvs \<Longrightarrow> store kvs r k = Some x"
proof (induction kvs arbitrary: r)
  case Nil
  then show ?case by simp
next
  case (Cons e kvs)
  obtain k' x' where e: "e = (k', x')" by (cases e)
  have step: "store (e # kvs) r k = store kvs (r(k' \<mapsto> x')) k"
    by (simp only: e store_Cons)
  show ?case
  proof (cases "(k, x) = (k', x')")
    case True
    with Cons.prems e have "k \<notin> fst ` set kvs" by simp
    then have "store kvs (r(k \<mapsto> x)) k = (r(k \<mapsto> x)) k" by (rule store_miss)
    also have "\<dots> = Some x" by simp
    finally show ?thesis using True step by simp
  next
    case False
    with Cons.prems e have "(k, x) \<in> set kvs" and "distinct (map fst kvs)" by auto
    then have "store kvs (r(k' \<mapsto> x')) k = Some x" by (rule Cons.IH [rotated])
    with step show ?thesis by (simp only:)
  qed
qed

lemma keys_as_joins: "map fst (keyed p ls) = map (\<lambda>z. p @ join z) (map segs ls)"
  by (induction ls) (auto simp: keyed_def segs_def key_of_join)

lemma distinct_keys:
  assumes "plain v"
  shows "distinct (map fst (emitted p v))"
proof -
  have d: "distinct (map segs (leaves v))"
    using assms distinct_segs_aux(1) by blast
  have i: "inj_on (\<lambda>z. p @ join z) (set (map segs (leaves v)))"
  proof (rule inj_onI)
    fix z1 z2
    assume z1: "z1 \<in> set (map segs (leaves v))" and z2: "z2 \<in> set (map segs (leaves v))"
      and e: "p @ join z1 = p @ join z2"
    from z1 z2 assms plain_segs_aux(1) [of v]
    have "\<forall>s\<in>set z1. CHR ''_'' \<notin> set s" "\<forall>s\<in>set z2. CHR ''_'' \<notin> set s"
      by auto
    moreover from e have "join z1 = join z2" by simp
    ultimately show "z1 = z2" by (rule join_inj)
  qed
  have "distinct (map (\<lambda>z. p @ join z) (map segs (leaves v)))"
    by (rule distinct_map [THEN iffD2, OF conjI [OF d i]])
  then show ?thesis by (simp add: emitted_def keys_as_joins)
qed

text \<open>
  Claim C3, as the code has it. Let the root prefix be non-empty and let every map key of
  the document be a string without an underscore. Then two entries of the document with
  different paths are given different keys, the keys of all emitted entries are pairwise
  different, \<^verbatim>\<open>flatten\<close> returns the given record with the emitted entries stored, and the
  returned record holds, under the key of every emitted entry, the text of that entry:
  none is overwritten by another.
\<close>

theorem flatten_distinct_keys:
  assumes "p \<noteq> []" and "plain v"
  shows "(\<forall>e1 \<in> set (leaves v). \<forall>e2 \<in> set (leaves v).
            fst e1 \<noteq> fst e2 \<longrightarrow> key_of p (fst e1) \<noteq> key_of p (fst e2))
       \<and> distinct (map fst (emitted p v))
       \<and> (\<exists>l'. flatten (r, l) p v = Inr (store (emitted p v) r, l'))
       \<and> (\<forall>e \<in> set (leaves v). store (emitted p v) r (key_of p (fst e)) = Some (snd e))"
proof (intro conjI ballI impI)
  have dk: "distinct (map fst (emitted p v))"
    using assms(2) by (rule distinct_keys)
  show "distinct (map fst (emitted p v))" by (rule dk)
  show "\<exists>l'. flatten (r, l) p v = Inr (store (emitted p v) r, l')"
    using flatten_stores_aux(1) [of p "(r, l)" v] assms(1) by (simp add: emitted_def)
  show "store (emitted p v) r (key_of p (fst e)) = Some (snd e)" if "e \<in> set (leaves v)" for e
  proof -
    from that have "(key_of p (fst e), snd e) \<in> set (emitted p v)"
      by (force simp: emitted_def keyed_def)
    with dk show ?thesis by (rule store_hit)
  qed
  show "key_of p (fst e1) \<noteq> key_of p (fst e2)"
    if e1: "e1 \<in> set (leaves v)" and e2: "e2 \<in> set (leaves v)" and ne: "fst e1 \<noteq> fst e2" for e1 e2
  proof
    assume k: "key_of p (fst e1) = key_of p (fst e2)"
    have m1: "(key_of p (fst e1), snd e1) \<in> set (emitted p v)"
      using e1 by (force simp: emitted_def keyed_def)
    have m2: "(key_of p (fst e2), snd e2) \<in> set (emitted p v)"
      using e2 by (force simp: emitted_def keyed_def)
    have inj: "inj_on (key_of p \<circ> fst) (set (leaves v))"
    proof -
      have "map fst (emitted p v) = map (key_of p \<circ> fst) (leaves v)"
        by (simp add: emitted_def keyed_def case_prod_beta comp_def)
      with dk show ?thesis by (simp add: distinct_map)
    qed
    from inj e1 e2 k have "e1 = e2" by (auto simp: inj_on_def)
    with ne show False by simp
  qed
qed

theorem flatten_distinct_keys_witness:
  "''root'' \<noteq> [] \<and> plain doc_abc
   \<and> distinct (map fst (emitted ''root'' doc_abc))
   \<and> (\<exists>l'. flatten (Map.empty, []) ''root'' doc_abc = Inr (store (emitted ''root'' doc_abc) Map.empty, l'))"
proof -
  have 1: "''root'' \<noteq> []" by simp
  have 2: "plain doc_abc" by (simp add: doc_abc_def)
  note t = flatten_distinct_keys [OF 1 2, of Map.empty "[]"]
  from 1 2 t [THEN conjunct2, THEN conjunct1] t [THEN conjunct2, THEN conjunct2, THEN conjunct1]
  show ?thesis by (intro conjI)
qed

text \<open>
  Claim C3 as the specification words it does not hold for every document. In
  \<^verbatim>\<open>{"a": {"b": true}, "a_b": false}\<close> the leaves at the paths \<^verbatim>\<open>a, b\<close> and \<^verbatim>\<open>a_b\<close> are
  both given the key \<^verbatim>\<open>root_a_b\<close>, and the record returned holds the second one only.
\<close>

theorem keys_collide:
  "leaves doc_a_b =
     [([Key (KStr ''a''), Key (KStr ''b'')], ''true''), ([Key (KStr ''a_b'')], ''false'')]
   \<and> [Key (KStr ''a''), Key (KStr ''b'')] \<noteq> [Key (KStr ''a_b'')]
   \<and> key_of ''root'' [Key (KStr ''a''), Key (KStr ''b'')] = key_of ''root'' [Key (KStr ''a_b'')]
   \<and> flatten (Map.empty, []) ''root'' doc_a_b = Inr ([''root_a_b'' \<mapsto> ''false''], [])"
  by (simp add: doc_a_b_def under_def key_of_def flatten_simps)

section \<open>Map keys that are not strings\<close>







end
